theory Spec2Isabelle
  imports Main "HOL-Library.Word"
begin

section \<open>Data model\<close>

text \<open>
  Addresses stand for C pointers. A pointer that may be \<open>NULL\<close> is an \<open>addr option\<close>
  (\<open>None\<close> is \<open>NULL\<close>); the opaque \<open>void*\<close> payloads carried by a channel and the
  \<open>void*\<close> data of a list node are plain addresses, compared by identity only.
  \<open>size_t\<close> is a 64-bit word.
\<close>

type_synonym addr = nat
type_synonym size_t = "64 word"

text \<open>The status codes of \<open>enum chan_status\<close>, as \<open>channel.c\<close> uses them.\<close>

datatype chan_status = SUCCESS | WOULDBLOCK | CLOSED_ERROR | DESTROY_ERROR | OTHER_ERROR

text \<open>
  What a call does: it returns a value, it stays suspended for ever (the schedule of
  the other threads ends before the awaited event happens), or it runs into behaviour
  the C standard leaves undefined (a dangling or \<open>NULL\<close> pointer is dereferenced, memory
  is used after \<open>free\<close>).
\<close>

datatype 'a outcome = Returns 'a | Blocks | Undefined

subsection \<open>The linked list of \<open>linked_list.c\<close>\<close>

text \<open>
  A \<open>list_t\<close> is its chain of nodes, read from \<open>head\<close> along \<open>next\<close>, each node given
  by its \<open>data\<close> pointer, and the separately maintained \<open>count\<close>. A node of the list is
  named by its position in the chain (the \<open>list_node_t*\<close> that \<open>list_find\<close> returns);
  a \<open>list_t*\<close> is a \<open>list_t option\<close>.
\<close>

record list_t =
  head :: "addr list"
  count :: size_t

text \<open>\<open>list_create\<close>: the argument says whether \<open>malloc\<close> succeeds.\<close>

definition list_create :: "bool \<Rightarrow> list_t option" where
  "list_create malloc_ok =
     (if malloc_ok then Some \<lparr>head = [], count = 0\<rparr> else None)"

definition list_count :: "list_t option \<Rightarrow> size_t" where
  "list_count list = (case list of Some l \<Rightarrow> count l | None \<Rightarrow> 0)"

text \<open>The \<open>while\<close> loop of \<open>list_find\<close>, started at position \<open>i\<close> of the chain.\<close>

fun find_node :: "addr list \<Rightarrow> addr \<Rightarrow> nat \<Rightarrow> nat option" where
  "find_node [] d i = None"
| "find_node (x # xs) d i = (if x = d then Some i else find_node xs d (Suc i))"

definition list_find :: "list_t option \<Rightarrow> addr \<Rightarrow> nat option" where
  "list_find list d = (case list of Some l \<Rightarrow> find_node (head l) d 0 | None \<Rightarrow> None)"

text \<open>\<open>list_insert\<close>: a new node becomes the head, unless its \<open>malloc\<close> fails.\<close>

definition list_insert :: "bool \<Rightarrow> list_t option \<Rightarrow> addr \<Rightarrow> list_t option" where
  "list_insert malloc_ok list d =
     (case list of
        None \<Rightarrow> None
      | Some l \<Rightarrow>
          if malloc_ok then Some (l\<lparr>head := d # head l, count := count l + 1\<rparr>)
          else Some l)"

text \<open>
  \<open>list_remove\<close> unlinks the node and decrements \<open>count\<close> (which wraps, as \<open>size_t\<close>
  does). The callers in \<open>channel.c\<close> pass the node that \<open>list_find\<close> has just returned
  for the same list; a position past the end of the chain names no node of the list,
  and the chain is left as it is there.
\<close>

definition list_remove :: "list_t option \<Rightarrow> nat option \<Rightarrow> list_t option" where
  "list_remove list node =
     (case list of
        None \<Rightarrow> None
      | Some l \<Rightarrow>
          (case node of
             None \<Rightarrow> Some l
           | Some i \<Rightarrow>
               Some (l\<lparr>head := take i (head l) @ drop (Suc i) (head l),
                       count := count l - 1\<rparr>)))"

text \<open>\<open>list_foreach\<close> applies \<open>func\<close> to the data of every node, from the head on.\<close>

definition list_foreach :: "list_t option \<Rightarrow> (addr \<Rightarrow> 's \<Rightarrow> 's) option \<Rightarrow> 's \<Rightarrow> 's" where
  "list_foreach list func s =
     (case list of
        None \<Rightarrow> s
      | Some l \<Rightarrow> (case func of None \<Rightarrow> s | Some f \<Rightarrow> fold f (head l) s))"

text \<open>
  \<open>list_destroy\<close> sets \<open>temp_node\<close> to the head once and never advances it: the loop
  body is \<open>list->head = temp_node->next; free(temp_node);\<close>. With no node the loop
  does not run; with one node it frees that node and stops, \<open>head\<close> now being \<open>NULL\<close>.
  With two or more nodes the second round reads \<open>temp_node->next\<close> from the node
  freed in the first round and frees that node again.
\<close>

definition list_destroy :: "list_t option \<Rightarrow> unit outcome" where
  "list_destroy list =
     (case list of
        None \<Rightarrow> Returns ()
      | Some l \<Rightarrow>
          (case head l of
             [] \<Rightarrow> Returns ()
           | [x] \<Rightarrow> Returns ()
           | x # y # ys \<Rightarrow> Undefined))"

subsection \<open>The bounded buffer\<close>

text \<open>
  Modelled from the spec: \<open>buffer.c\<close> (\<open>buffer_create\<close>, \<open>buffer_capacity\<close>,
  \<open>buffer_current_size\<close>, \<open>buffer_add\<close>, \<open>buffer_remove\<close>, \<open>buffer_free\<close>) is not among the
  sources. The spec describes it as a fixed-capacity FIFO of opaque values with
  \<open>create(capacity)\<close>, \<open>capacity()\<close>, \<open>size()\<close>, \<open>push(value)\<close> and \<open>pop()\<close>, the latter
  requiring \<open>size > 0\<close>. The values are kept oldest first.
\<close>

record buffer_t =
  capacity :: size_t
  contents :: "addr list"

text \<open>Modelled from the spec: \<open>create(capacity)\<close> gives an empty buffer of that capacity.\<close>

definition buffer_create :: "size_t \<Rightarrow> buffer_t" where
  "buffer_create n = \<lparr>capacity = n, contents = []\<rparr>"

text \<open>Modelled from the spec: the queries \<open>capacity()\<close> and \<open>size()\<close>.\<close>

definition buffer_capacity :: "buffer_t \<Rightarrow> size_t" where
  "buffer_capacity b = capacity b"

definition buffer_current_size :: "buffer_t \<Rightarrow> size_t" where
  "buffer_current_size b = of_nat (length (contents b))"

text \<open>
  Modelled from the spec: \<open>push(value)\<close> puts the value behind the ones already held
  (the caller has checked \<open>size < capacity\<close>).
\<close>

definition buffer_add :: "addr \<Rightarrow> buffer_t \<Rightarrow> buffer_t" where
  "buffer_add v b = b\<lparr>contents := contents b @ [v]\<rparr>"

text \<open>
  Modelled from the spec: \<open>pop()\<close> takes the oldest value out and returns it; on an
  empty buffer its precondition \<open>size > 0\<close> is broken and there is no result.
\<close>

definition buffer_remove :: "buffer_t \<Rightarrow> (addr \<times> buffer_t) option" where
  "buffer_remove b =
     (case contents b of [] \<Rightarrow> None | v # vs \<Rightarrow> Some (v, b\<lparr>contents := vs\<rparr>))"

subsection \<open>Mutexes and condition variables\<close>

text \<open>
  A call runs without interference from other threads except while it is suspended
  in \<open>pthread_cond_wait\<close> or \<open>sem_wait\<close>, so a mutex is free whenever the call locks
  it, and all that is kept of a mutex or a condition variable is whether it has been
  initialised. \<open>pthread_mutex_lock\<close> is the thread library's: it returns \<open>0\<close> on an
  initialised mutex and \<open>EINVAL\<close> on one that is not. Signalling a condition
  variable changes no data: the threads that wait on it are the environment.
\<close>

datatype pthread_obj = Uninitialised | Initialised

definition EINVAL :: int where
  "EINVAL = 22"

definition pthread_mutex_lock :: "pthread_obj \<Rightarrow> int" where
  "pthread_mutex_lock m = (if m = Initialised then 0 else EINVAL)"

subsection \<open>Channels and the program state\<close>

text \<open>The fields of \<open>chan_t\<close> that \<open>channel.c\<close> reads and writes.\<close>

record chan_t =
  buffer :: buffer_t
  mutex :: pthread_obj
  send_list_mutex :: pthread_obj
  receive_list_mutex :: pthread_obj
  send_condition :: pthread_obj
  receive_condition :: pthread_obj
  send_list :: "list_t option"
  receive_list :: "list_t option"
  closed :: bool

text \<open>
  The state is the store of allocated channels and the counters of the semaphores,
  by address. A semaphore's address is what the registries hold as a token.
\<close>

record state =
  heap :: "addr \<rightharpoonup> chan_t"
  sems :: "addr \<Rightarrow> nat"

definition sem_post :: "addr \<Rightarrow> state \<Rightarrow> state" where
  "sem_post t s = s\<lparr>sems := (sems s)(t := Suc (sems s t))\<rparr>"

text \<open>
  What the other threads do while a call is suspended in \<open>pthread_cond_wait\<close> or
  \<open>sem_wait\<close>: one state transformer for every time the call is suspended.
\<close>

type_synonym env = "(state \<Rightarrow> state) list"

section \<open>The operations of \<open>channel.c\<close>\<close>

subsection \<open>\<open>channel_create\<close>\<close>

text \<open>
  \<open>chan_malloc\<close> is what \<open>malloc(sizeof(chan_t))\<close> returns; the two booleans say whether
  the \<open>malloc\<close> of each \<open>list_create\<close> succeeds.
\<close>

definition channel_create ::
  "addr option \<Rightarrow> bool \<Rightarrow> bool \<Rightarrow> size_t \<Rightarrow> state \<Rightarrow> addr option \<times> state" where
  "channel_create chan_malloc send_ok receive_ok sz s =
     (case chan_malloc of
        None \<Rightarrow> (None, s)
      | Some a \<Rightarrow>
          (Some a,
           s\<lparr>heap := (heap s)(a \<mapsto>
               \<lparr>buffer = buffer_create sz,
                mutex = Initialised,
                send_list_mutex = Initialised,
                receive_list_mutex = Initialised,
                send_condition = Initialised,
                receive_condition = Initialised,
                send_list = list_create send_ok,
                receive_list = list_create receive_ok,
                closed = False\<rparr>)\<rparr>))"

subsection \<open>\<open>channel_send\<close>\<close>

text \<open>
  The blocking branch: \<open>while (capacity - size == 0) { wait; if (closed) return
  CLOSED_ERROR; }\<close>. Every \<open>pthread_cond_wait\<close> suspends the call for one step of the
  environment. The result is \<open>Some CLOSED_ERROR\<close> when the loop returns from the
  function and \<open>None\<close> when the loop ends and the function goes on.
\<close>

fun send_wait :: "env \<Rightarrow> addr \<Rightarrow> state \<Rightarrow> (chan_status option \<times> state) outcome" where
  "send_wait [] a s =
     (case heap s a of
        None \<Rightarrow> Undefined
      | Some c \<Rightarrow>
          if buffer_capacity (buffer c) - buffer_current_size (buffer c) = 0 then Blocks
          else Returns (None, s))"
| "send_wait (e # es) a s =
     (case heap s a of
        None \<Rightarrow> Undefined
      | Some c \<Rightarrow>
          if buffer_capacity (buffer c) - buffer_current_size (buffer c) = 0 then
            (case heap (e s) a of
               None \<Rightarrow> Undefined
             | Some c' \<Rightarrow>
                 if closed c' then Returns (Some CLOSED_ERROR, e s)
                 else send_wait es a (e s))
          else Returns (None, s))"

text \<open>
  From \<open>buffer_add\<close> to the end: the value is pushed, then every token of the receive
  list is posted.
\<close>

definition send_commit :: "addr \<Rightarrow> addr \<Rightarrow> state \<Rightarrow> (chan_status \<times> state) outcome" where
  "send_commit a d s =
     (case heap s a of
        None \<Rightarrow> Undefined
      | Some c \<Rightarrow>
          let s1 = s\<lparr>heap := (heap s)(a \<mapsto> c\<lparr>buffer := buffer_add d (buffer c)\<rparr>)\<rparr>;
              s2 = (if list_count (receive_list c) \<noteq> 0
                    then list_foreach (receive_list c) (Some sem_post) s1 else s1)
          in Returns (SUCCESS, s2))"

definition channel_send ::
  "env \<Rightarrow> addr option \<Rightarrow> addr \<Rightarrow> bool \<Rightarrow> state \<Rightarrow> (chan_status \<times> state) outcome" where
  "channel_send env channel d blocking s =
     (case channel of
        None \<Rightarrow> Returns (OTHER_ERROR, s)
      | Some a \<Rightarrow>
          (case heap s a of
             None \<Rightarrow> Undefined
           | Some c \<Rightarrow>
               if \<not> blocking \<and> pthread_mutex_lock (mutex c) \<noteq> 0 then Returns (WOULDBLOCK, s)
               else if closed c then Returns (CLOSED_ERROR, s)
               else if blocking then
                 (case send_wait env a s of
                    Returns (Some st, s') \<Rightarrow> Returns (st, s')
                  | Returns (None, s') \<Rightarrow> send_commit a d s'
                  | Blocks \<Rightarrow> Blocks
                  | Undefined \<Rightarrow> Undefined)
               else if buffer_capacity (buffer c) - buffer_current_size (buffer c) = 0
                 then Returns (WOULDBLOCK, s)
               else send_commit a d s))"

subsection \<open>\<open>channel_receive\<close>\<close>

text \<open>The blocking branch: \<open>while (size == 0) { wait; if (closed) return CLOSED_ERROR; }\<close>.\<close>

fun receive_wait :: "env \<Rightarrow> addr \<Rightarrow> state \<Rightarrow> (chan_status option \<times> state) outcome" where
  "receive_wait [] a s =
     (case heap s a of
        None \<Rightarrow> Undefined
      | Some c \<Rightarrow>
          if buffer_current_size (buffer c) = 0 then Blocks else Returns (None, s))"
| "receive_wait (e # es) a s =
     (case heap s a of
        None \<Rightarrow> Undefined
      | Some c \<Rightarrow>
          if buffer_current_size (buffer c) = 0 then
            (case heap (e s) a of
               None \<Rightarrow> Undefined
             | Some c' \<Rightarrow>
                 if closed c' then Returns (Some CLOSED_ERROR, e s)
                 else receive_wait es a (e s))
          else Returns (None, s))"

text \<open>
  From \<open>buffer_remove\<close> to the end: the oldest value is popped and stored through
  \<open>data\<close>, then every token of the send list is posted. The second component of the
  result is the content of the out-slot \<open>*data\<close>.
\<close>

definition receive_commit ::
  "addr \<Rightarrow> state \<Rightarrow> (chan_status \<times> addr \<times> state) outcome" where
  "receive_commit a s =
     (case heap s a of
        None \<Rightarrow> Undefined
      | Some c \<Rightarrow>
          (case buffer_remove (buffer c) of
             None \<Rightarrow> Undefined
           | Some (v, b) \<Rightarrow>
               let s1 = s\<lparr>heap := (heap s)(a \<mapsto> c\<lparr>buffer := b\<rparr>)\<rparr>;
                   s2 = (if list_count (send_list c) \<noteq> 0
                         then list_foreach (send_list c) (Some sem_post) s1 else s1)
               in Returns (SUCCESS, v, s2)))"

text \<open>
  \<open>slot\<close> is what the out-slot \<open>*data\<close> holds when the call starts; the result carries
  what it holds when the call returns.
\<close>

definition channel_receive ::
  "env \<Rightarrow> addr option \<Rightarrow> addr \<Rightarrow> bool \<Rightarrow> state \<Rightarrow> (chan_status \<times> addr \<times> state) outcome" where
  "channel_receive env channel slot blocking s =
     (case channel of
        None \<Rightarrow> Returns (OTHER_ERROR, slot, s)
      | Some a \<Rightarrow>
          (case heap s a of
             None \<Rightarrow> Undefined
           | Some c \<Rightarrow>
               if \<not> blocking \<and> pthread_mutex_lock (mutex c) \<noteq> 0
                 then Returns (WOULDBLOCK, slot, s)
               else if closed c then Returns (CLOSED_ERROR, slot, s)
               else if blocking then
                 (case receive_wait env a s of
                    Returns (Some st, s') \<Rightarrow> Returns (st, slot, s')
                  | Returns (None, s') \<Rightarrow> receive_commit a s'
                  | Blocks \<Rightarrow> Blocks
                  | Undefined \<Rightarrow> Undefined)
               else if buffer_current_size (buffer c) = 0 then Returns (WOULDBLOCK, slot, s)
               else receive_commit a s))"

subsection \<open>\<open>channel_close\<close> and \<open>channel_destroy\<close>\<close>

definition channel_close :: "addr option \<Rightarrow> state \<Rightarrow> (chan_status \<times> state) outcome" where
  "channel_close channel s =
     (case channel of
        None \<Rightarrow> Returns (OTHER_ERROR, s)
      | Some a \<Rightarrow>
          (case heap s a of
             None \<Rightarrow> Undefined
           | Some c \<Rightarrow>
               if closed c = True then Returns (CLOSED_ERROR, s)
               else
                 let s1 = s\<lparr>heap := (heap s)(a \<mapsto> c\<lparr>closed := True\<rparr>)\<rparr>;
                     s2 = (if list_count (send_list c) \<noteq> 0
                           then list_foreach (send_list c) (Some sem_post) s1 else s1);
                     s3 = (if list_count (receive_list c) \<noteq> 0
                           then list_foreach (receive_list c) (Some sem_post) s2 else s2)
                 in Returns (SUCCESS, s3)))"

text \<open>
  \<open>channel_destroy\<close> frees the buffer, destroys the mutexes and condition variables,
  destroys both lists and frees the channel: its address leaves the store.
\<close>

definition channel_destroy :: "addr option \<Rightarrow> state \<Rightarrow> (chan_status \<times> state) outcome" where
  "channel_destroy channel s =
     (case channel of
        None \<Rightarrow> Returns (OTHER_ERROR, s)
      | Some a \<Rightarrow>
          (case heap s a of
             None \<Rightarrow> Undefined
           | Some c \<Rightarrow>
               if closed c = False then Returns (DESTROY_ERROR, s)
               else
                 (case list_destroy (send_list c) of
                    Returns _ \<Rightarrow>
                      (case list_destroy (receive_list c) of
                         Returns _ \<Rightarrow> Returns (SUCCESS, s\<lparr>heap := (heap s)(a := None)\<rparr>)
                       | Blocks \<Rightarrow> Blocks
                       | Undefined \<Rightarrow> Undefined)
                  | Blocks \<Rightarrow> Blocks
                  | Undefined \<Rightarrow> Undefined)))"

subsection \<open>\<open>channel_select\<close>\<close>

text \<open>
  An entry of the array \<open>channel_list\<close>. For a send, \<open>data\<close> is the value; for a
  receive, \<open>&channel_list[i].data\<close> is the out-slot.
\<close>

record select_t =
  channel :: "addr option"
  is_send :: bool
  data :: addr

text \<open>
  One round of the first \<open>for\<close> loop: the token \<open>t\<close> (the address of \<open>sem_local\<close>) is
  inserted into the send or receive list of the entry's channel unless \<open>list_find\<close>
  finds it there. \<open>channel_list[i].channel\<close> is dereferenced without a check.
\<close>

definition register_entry :: "bool \<Rightarrow> addr \<Rightarrow> select_t \<Rightarrow> state \<Rightarrow> state outcome" where
  "register_entry malloc_ok t e s =
     (case channel e of
        None \<Rightarrow> Undefined
      | Some a \<Rightarrow>
          (case heap s a of
             None \<Rightarrow> Undefined
           | Some c \<Rightarrow>
               if is_send e = True then
                 (if list_find (send_list c) t = None
                  then Returns (s\<lparr>heap := (heap s)(a \<mapsto>
                         c\<lparr>send_list := list_insert malloc_ok (send_list c) t\<rparr>)\<rparr>)
                  else Returns s)
               else
                 (if list_find (receive_list c) t = None
                  then Returns (s\<lparr>heap := (heap s)(a \<mapsto>
                         c\<lparr>receive_list := list_insert malloc_ok (receive_list c) t\<rparr>)\<rparr>)
                  else Returns s)))"

text \<open>
  The first \<open>for\<close> loop, from index \<open>i\<close> on. \<open>mallocs i\<close> says whether the \<open>malloc\<close> of
  a \<open>list_insert\<close> in round \<open>i\<close> succeeds. Reading the array past its end is undefined.
\<close>

function register_loop ::
  "(nat \<Rightarrow> bool) \<Rightarrow> addr \<Rightarrow> nat \<Rightarrow> select_t list \<Rightarrow> nat \<Rightarrow> state \<Rightarrow> state outcome" where
  "register_loop mallocs t n es i s =
     (if i < n then
        (if i < length es then
           (case register_entry (mallocs i) t (es ! i) s of
              Returns s' \<Rightarrow> register_loop mallocs t n es (Suc i) s'
            | Blocks \<Rightarrow> Blocks
            | Undefined \<Rightarrow> Undefined)
         else Undefined)
      else Returns s)"
  by pat_completeness auto
termination
  by (relation "measure (\<lambda>(mallocs, t, n, es, i, s). n - i)") auto

declare register_loop.simps [simp del]

text \<open>
  One round of the innermost \<open>for\<close> loop: the node holding the token is looked up in
  the list of the entry's direction and removed if there is one.
\<close>

definition deregister_entry :: "addr \<Rightarrow> select_t \<Rightarrow> state \<Rightarrow> state outcome" where
  "deregister_entry t e s =
     (case channel e of
        None \<Rightarrow> Undefined
      | Some a \<Rightarrow>
          (case heap s a of
             None \<Rightarrow> Undefined
           | Some c \<Rightarrow>
               if is_send e = True then
                 (let new_node = list_find (send_list c) t in
                  if new_node \<noteq> None
                  then Returns (s\<lparr>heap := (heap s)(a \<mapsto>
                         c\<lparr>send_list := list_remove (send_list c) new_node\<rparr>)\<rparr>)
                  else Returns s)
               else
                 (let new_node = list_find (receive_list c) t in
                  if new_node \<noteq> None
                  then Returns (s\<lparr>heap := (heap s)(a \<mapsto>
                         c\<lparr>receive_list := list_remove (receive_list c) new_node\<rparr>)\<rparr>)
                  else Returns s)))"

function deregister_loop ::
  "addr \<Rightarrow> nat \<Rightarrow> select_t list \<Rightarrow> nat \<Rightarrow> state \<Rightarrow> state outcome" where
  "deregister_loop t n es i s =
     (if i < n then
        (if i < length es then
           (case deregister_entry t (es ! i) s of
              Returns s' \<Rightarrow> deregister_loop t n es (Suc i) s'
            | Blocks \<Rightarrow> Blocks
            | Undefined \<Rightarrow> Undefined)
         else Undefined)
      else Returns s)"
  by pat_completeness auto
termination
  by (relation "measure (\<lambda>(t, n, es, i, s). n - i)") auto

declare deregister_loop.simps [simp del]

text \<open>
  The non-blocking operation of one entry. A receive writes the entry's \<open>data\<close>.
\<close>

definition probe_entry ::
  "env \<Rightarrow> select_t \<Rightarrow> state \<Rightarrow> (chan_status \<times> select_t \<times> state) outcome" where
  "probe_entry env e s =
     (if is_send e = True then
        (case channel_send env (channel e) (data e) False s of
           Returns (st, s') \<Rightarrow> Returns (st, e, s')
         | Blocks \<Rightarrow> Blocks
         | Undefined \<Rightarrow> Undefined)
      else
        (case channel_receive env (channel e) (data e) False s of
           Returns (st, v, s') \<Rightarrow> Returns (st, e\<lparr>data := v\<rparr>, s')
         | Blocks \<Rightarrow> Blocks
         | Undefined \<Rightarrow> Undefined))"

text \<open>
  The \<open>for\<close> loop inside \<open>while (true)\<close>, from index \<open>i\<close> on, up to the point where a
  status other than \<open>WOULDBLOCK\<close> is seen: the result is that index and status, or
  \<open>None\<close> when the loop runs to its end.
\<close>

function probe_loop ::
  "env \<Rightarrow> nat \<Rightarrow> select_t list \<Rightarrow> nat \<Rightarrow> state
     \<Rightarrow> ((nat \<times> chan_status) option \<times> select_t list \<times> state) outcome" where
  "probe_loop env n es i s =
     (if i < n then
        (if i < length es then
           (case probe_entry env (es ! i) s of
              Returns (status, e', s') \<Rightarrow>
                if status \<noteq> WOULDBLOCK then Returns (Some (i, status), es[i := e'], s')
                else probe_loop env n (es[i := e']) (Suc i) s'
            | Blocks \<Rightarrow> Blocks
            | Undefined \<Rightarrow> Undefined)
         else Undefined)
      else Returns (None, es, s))"
  by pat_completeness auto
termination
  by (relation "measure (\<lambda>(env, n, es, i, s). n - i)") auto

declare probe_loop.simps [simp del]

text \<open>
  \<open>sem_wait\<close> takes one unit of the counter when there is one; otherwise the call is
  suspended and the environment runs.
\<close>

fun sem_wait :: "env \<Rightarrow> addr \<Rightarrow> state \<Rightarrow> (env \<times> state) outcome" where
  "sem_wait [] t s =
     (if 0 < sems s t then Returns ([], s\<lparr>sems := (sems s)(t := sems s t - 1)\<rparr>)
      else Blocks)"
| "sem_wait (e # es) t s =
     (if 0 < sems s t then Returns (e # es, s\<lparr>sems := (sems s)(t := sems s t - 1)\<rparr>)
      else sem_wait es t (e s))"

text \<open>
  A probe that answers \<open>WOULDBLOCK\<close> changes nothing, and a \<open>sem_wait\<close> that returns
  has either let the environment run or taken one unit of the counter: this is what
  makes the \<open>while (true)\<close> loop of \<open>channel_select\<close> a total function of the
  environment's schedule.
\<close>

lemma send_commit_status:
  "send_commit a d s = Returns (st, s') \<Longrightarrow> st = SUCCESS"
  by (auto simp: send_commit_def Let_def split: option.splits)

lemma receive_commit_status:
  "receive_commit a s = Returns (st, v, s') \<Longrightarrow> st = SUCCESS"
  by (auto simp: receive_commit_def Let_def split: option.splits)

lemma channel_send_wouldblock_state:
  "channel_send env ch d False s = Returns (WOULDBLOCK, s') \<Longrightarrow> s' = s"
  by (auto simp: channel_send_def dest: send_commit_status split: option.splits if_splits)

lemma channel_receive_wouldblock_state:
  "channel_receive env ch slot False s = Returns (WOULDBLOCK, v, s') \<Longrightarrow> v = slot \<and> s' = s"
  by (auto simp: channel_receive_def dest: receive_commit_status split: option.splits if_splits)

lemma probe_entry_wouldblock:
  "probe_entry env e s = Returns (WOULDBLOCK, e', s') \<Longrightarrow> e' = e \<and> s' = s"
  by (auto simp: probe_entry_def split: if_splits outcome.splits
           dest: channel_send_wouldblock_state channel_receive_wouldblock_state)

lemma probe_loop_none:
  "probe_loop env n es i s = Returns (None, es', s') \<Longrightarrow> es' = es \<and> s' = s"
proof (induction env n es i s rule: probe_loop.induct)
  case (1 env n es i s)
  show ?case
  proof (cases "i < n \<and> i < length es")
    case False
    with "1.prems" show ?thesis
      by (auto simp: probe_loop.simps [of env n es i s] split: if_splits)
  next
    case True
    with "1.prems" obtain st e' s1 where
      pe: "probe_entry env (es ! i) s = Returns (st, e', s1)"
      by (auto simp: probe_loop.simps [of env n es i s] split: outcome.splits)
    with True "1.prems" have st: "st = WOULDBLOCK"
      and rest: "probe_loop env n (es[i := e']) (Suc i) s1 = Returns (None, es', s')"
      by (auto simp: probe_loop.simps [of env n es i s] split: if_splits)
    from pe st have same: "e' = es ! i" "s1 = s"
      by (auto dest: probe_entry_wouldblock)
    from "1.IH" [of "(st, e', s1)" st "(e', s1)" e' s1] True st pe rest
    have "es' = es[i := e'] \<and> s' = s1" by simp
    with same show ?thesis by simp
  qed
qed

lemma sem_wait_decreases:
  "sem_wait env t s = Returns (env', s') \<Longrightarrow>
     length env' < length env \<or> (env' = env \<and> sems s' t < sems s t)"
proof (induction env arbitrary: s)
  case Nil
  then show ?case by (auto split: if_splits)
next
  case (Cons e es)
  show ?case
  proof (cases "0 < sems s t")
    case True
    with Cons.prems show ?thesis by auto
  next
    case False
    with Cons.prems have "sem_wait es t (e s) = Returns (env', s')" by simp
    from Cons.IH [OF this] show ?thesis by auto
  qed
qed

text \<open>
  The \<open>while (true)\<close> loop: probe all entries; on the first status other than
  \<open>WOULDBLOCK\<close> store the index through \<open>selected_index\<close>, take the token out of every
  entry's list and return the status; otherwise \<open>sem_wait\<close> and probe again. The
  result carries the array and the content of \<open>*selected_index\<close> at return.
\<close>

function select_loop ::
  "env \<Rightarrow> addr \<Rightarrow> nat \<Rightarrow> select_t list \<Rightarrow> state
     \<Rightarrow> (chan_status \<times> select_t list \<times> nat \<times> state) outcome" where
  "select_loop env t n es s =
     (case probe_loop env n es 0 s of
        Returns (Some (i, status), es', s') \<Rightarrow>
          (case deregister_loop t n es' 0 s' of
             Returns s'' \<Rightarrow> Returns (status, es', i, s'')
           | Blocks \<Rightarrow> Blocks
           | Undefined \<Rightarrow> Undefined)
      | Returns (None, es', s') \<Rightarrow>
          (case sem_wait env t s' of
             Returns (env', s'') \<Rightarrow> select_loop env' t n es' s''
           | Blocks \<Rightarrow> Blocks
           | Undefined \<Rightarrow> Undefined)
      | Blocks \<Rightarrow> Blocks
      | Undefined \<Rightarrow> Undefined)"
  by pat_completeness auto
termination
proof (relation "measures [\<lambda>(env, t, n, es, s). length env, \<lambda>(env, t, n, es, s). sems s t]")
  show "wf (measures [\<lambda>(env, t, n, es, s). length env, \<lambda>(env, t, n, es, s). sems s t])"
    by simp
next
  fix env :: env and t n :: nat and es :: "select_t list" and s :: state
    and x1 x y and es' :: "select_t list" and s' :: state and x1a env' s''
  assume probe: "probe_loop env n es 0 s = Returns x1" "(x, y) = x1" "(es', s') = y" "x = None"
    and wait: "sem_wait env t s' = Returns x1a" "(env', s'') = x1a"
  from probe have "s' = s"
    by (auto dest: probe_loop_none)
  with wait sem_wait_decreases [of env t s env' s'']
  show "((env', t, n, es', s''), env, t, n, es, s)
          \<in> measures [\<lambda>(env, t, n, es, s). length env, \<lambda>(env, t, n, es, s). sems s t]"
    by auto
qed

declare select_loop.simps [simp del]

text \<open>
  \<open>channel_select\<close>. \<open>sem_init_rc\<close> is what \<open>sem_init\<close> returns, \<open>t\<close> the address of
  \<open>sem_local\<close>, \<open>selected_index\<close> the content of \<open>*selected_index\<close> at the call.
  \<open>sem_init\<close> sets the counter to \<open>0\<close>.
\<close>

definition channel_select ::
  "env \<Rightarrow> int \<Rightarrow> addr \<Rightarrow> (nat \<Rightarrow> bool) \<Rightarrow> nat \<Rightarrow> select_t list option \<Rightarrow> nat \<Rightarrow> state
     \<Rightarrow> (chan_status \<times> select_t list option \<times> nat \<times> state) outcome" where
  "channel_select env sem_init_rc t mallocs channel_count channel_list selected_index s =
     (case channel_list of
        None \<Rightarrow> Returns (OTHER_ERROR, channel_list, selected_index, s)
      | Some es \<Rightarrow>
          if channel_count = 0 then Returns (OTHER_ERROR, channel_list, selected_index, s)
          else if sem_init_rc = - 1 then Returns (OTHER_ERROR, channel_list, selected_index, s)
          else
            (case register_loop mallocs t channel_count es 0 (s\<lparr>sems := (sems s)(t := 0)\<rparr>) of
               Returns s1 \<Rightarrow>
                 (case select_loop env t channel_count es s1 of
                    Returns (status, es', i, s') \<Rightarrow> Returns (status, Some es', i, s')
                  | Blocks \<Rightarrow> Blocks
                  | Undefined \<Rightarrow> Undefined)
             | Blocks \<Rightarrow> Blocks
             | Undefined \<Rightarrow> Undefined))"

subsection \<open>Sequential use and sample states\<close>

text \<open>
  One thread that issues sends and receives on the channel at \<open>a\<close> one after the other,
  with nothing else running: the result lists the values of the sends that returned
  \<open>SUCCESS\<close> and the values stored by the receives that returned \<open>SUCCESS\<close>, in order.
\<close>

datatype chan_op = Send addr bool | Receive bool

fun run :: "addr \<Rightarrow> chan_op list \<Rightarrow> state \<Rightarrow> (addr list \<times> addr list \<times> state) outcome" where
  "run a [] s = Returns ([], [], s)"
| "run a (Send v blocking # ops) s =
     (case channel_send [] (Some a) v blocking s of
        Returns (st, s') \<Rightarrow>
          (case run a ops s' of
             Returns (sent, received, s'') \<Rightarrow>
               Returns ((if st = SUCCESS then [v] else []) @ sent, received, s'')
           | Blocks \<Rightarrow> Blocks
           | Undefined \<Rightarrow> Undefined)
      | Blocks \<Rightarrow> Blocks
      | Undefined \<Rightarrow> Undefined)"
| "run a (Receive blocking # ops) s =
     (case channel_receive [] (Some a) 0 blocking s of
        Returns (st, v, s') \<Rightarrow>
          (case run a ops s' of
             Returns (sent, received, s'') \<Rightarrow>
               Returns (sent, (if st = SUCCESS then [v] else []) @ received, s'')
           | Blocks \<Rightarrow> Blocks
           | Undefined \<Rightarrow> Undefined)
      | Blocks \<Rightarrow> Blocks
      | Undefined \<Rightarrow> Undefined)"

text \<open>
  A channel as \<open>channel_create\<close> leaves it when every allocation succeeds, with the
  given capacity, buffered values and closed flag; and the state whose only channel is
  \<open>c\<close>, at address \<open>1\<close>, with every semaphore counter \<open>0\<close>.
\<close>

definition chan_with :: "size_t \<Rightarrow> addr list \<Rightarrow> bool \<Rightarrow> chan_t" where
  "chan_with n vs cl =
     \<lparr>buffer = \<lparr>capacity = n, contents = vs\<rparr>,
      mutex = Initialised,
      send_list_mutex = Initialised,
      receive_list_mutex = Initialised,
      send_condition = Initialised,
      receive_condition = Initialised,
      send_list = Some \<lparr>head = [], count = 0\<rparr>,
      receive_list = Some \<lparr>head = [], count = 0\<rparr>,
      closed = cl\<rparr>"

definition one_chan :: "chan_t \<Rightarrow> state" where
  "one_chan c = \<lparr>heap = [1 \<mapsto> c], sems = (\<lambda>t. 0)\<rparr>"

text \<open>
  A second sample state, with channels at the addresses \<open>1\<close> and \<open>2\<close>; a receive entry
  for \<open>channel_select\<close>; and a step of the environment in which another thread
  performs a non-blocking send.
\<close>

definition two_chans :: "chan_t \<Rightarrow> chan_t \<Rightarrow> state" where
  "two_chans c1 c2 = \<lparr>heap = [1 \<mapsto> c1, 2 \<mapsto> c2], sems = (\<lambda>t. 0)\<rparr>"

definition recv_entry :: "addr \<Rightarrow> select_t" where
  "recv_entry a = \<lparr>channel = Some a, is_send = False, data = 0\<rparr>"

definition env_send :: "addr \<Rightarrow> addr \<Rightarrow> state \<Rightarrow> state" where
  "env_send a v s =
     (case channel_send [] (Some a) v False s of
        Returns (st, s') \<Rightarrow> s'
      | Blocks \<Rightarrow> s
      | Undefined \<Rightarrow> s)"

subsection \<open>Vocabulary of the properties\<close>

text \<open>The channel at \<open>b\<close> exists and its closed flag is set.\<close>

definition is_closed :: "state \<Rightarrow> addr \<Rightarrow> bool" where
  "is_closed s b = (case heap s b of None \<Rightarrow> False | Some c \<Rightarrow> closed c)"

text \<open>
  Two frames. Registration and deregistration leave the buffer, the mutex and the
  closed flag of every channel alone; send and receive leave the two lists, the
  closed flag and the mutex of every channel alone. Neither allocates or frees.
\<close>

definition core :: "chan_t \<Rightarrow> buffer_t \<times> pthread_obj \<times> bool" where
  "core c = (buffer c, mutex c, closed c)"

definition same_core :: "state \<Rightarrow> state \<Rightarrow> bool" where
  "same_core s s' = (\<forall>a. map_option core (heap s' a) = map_option core (heap s a))"

definition same_lists :: "state \<Rightarrow> state \<Rightarrow> bool" where
  "same_lists s s' =
     (\<forall>a. map_option (\<lambda>c. (send_list c, receive_list c, closed c, mutex c)) (heap s' a)
        = map_option (\<lambda>c. (send_list c, receive_list c, closed c, mutex c)) (heap s a))"

text \<open>
  The first \<open>n\<close> entries lie inside the array and each names an allocated channel.
\<close>

definition entries_valid :: "nat \<Rightarrow> select_t list \<Rightarrow> state \<Rightarrow> bool" where
  "entries_valid n es s =
     (n \<le> length es \<and> (\<forall>j<n. \<exists>a c. channel (es ! j) = Some a \<and> heap s a = Some c))"

text \<open>
  The tokens a list holds, head first; how often the token \<open>t\<close> occurs in the send
  list (\<open>dir\<close> true) or the receive list (\<open>dir\<close> false) of the channel at \<open>a\<close>; whether
  one of the entries \<open>i, \<dots>, n - 1\<close> names that list; and the invariant of a select
  call between registration and deregistration: the token occurs at most once, and
  only in lists that such an entry names.
\<close>

definition tokens :: "list_t option \<Rightarrow> addr list" where
  "tokens list = (case list of None \<Rightarrow> [] | Some l \<Rightarrow> head l)"

definition mult :: "addr \<Rightarrow> state \<Rightarrow> addr \<Rightarrow> bool \<Rightarrow> nat" where
  "mult t s a dir =
     (case heap s a of
        None \<Rightarrow> 0
      | Some c \<Rightarrow> count_list (tokens (if dir then send_list c else receive_list c)) t)"

definition targeted :: "nat \<Rightarrow> nat \<Rightarrow> select_t list \<Rightarrow> addr \<Rightarrow> bool \<Rightarrow> bool" where
  "targeted i n es a dir =
     (\<exists>j. i \<le> j \<and> j < n \<and> channel (es ! j) = Some a \<and> is_send (es ! j) = dir)"

definition pending :: "addr \<Rightarrow> nat \<Rightarrow> nat \<Rightarrow> select_t list \<Rightarrow> state \<Rightarrow> bool" where
  "pending t i n es s =
     (\<forall>a dir. mult t s a dir \<le> (if targeted i n es a dir then 1 else 0))"

text \<open>The definitions unfolded to run the operations on a given state.\<close>

lemmas eval_defs =
  channel_select_def select_loop.simps probe_loop.simps register_loop.simps
  deregister_loop.simps register_entry_def deregister_entry_def probe_entry_def
  channel_send_def channel_receive_def send_commit_def receive_commit_def
  pthread_mutex_lock_def buffer_current_size_def buffer_capacity_def buffer_add_def
  buffer_remove_def list_count_def list_find_def list_insert_def list_remove_def
  list_foreach_def sem_post_def Let_def

section \<open>Properties\<close>

subsection \<open>Creation\<close>

text \<open>
  What \<open>channel_create\<close> does, for every outcome of its allocations. It returns \<open>NULL\<close>
  and changes nothing when the \<open>malloc\<close> of the channel structure fails. Otherwise it
  returns the new channel, whose buffer has the given capacity and holds no value,
  whose mutex is initialised and whose closed flag is false; each of the two lists is
  the empty list when the \<open>malloc\<close> of its \<open>list_create\<close> succeeds, and \<open>NULL\<close> when
  it fails: the result of \<open>list_create\<close> is stored unchecked.
\<close>

lemma channel_create_result:
  "channel_create None send_ok receive_ok sz s = (None, s) \<and>
   (\<exists>c. channel_create (Some a) send_ok receive_ok sz s
            = (Some a, s\<lparr>heap := (heap s)(a \<mapsto> c)\<rparr>) \<and>
        buffer_capacity (buffer c) = sz \<and>
        buffer_current_size (buffer c) = 0 \<and>
        contents (buffer c) = [] \<and>
        closed c = False \<and>
        mutex c = Initialised \<and>
        send_list c = (if send_ok then Some \<lparr>head = [], count = 0\<rparr> else None) \<and>
        receive_list c = (if receive_ok then Some \<lparr>head = [], count = 0\<rparr> else None))"
proof -
  let ?c = "\<lparr>buffer = buffer_create sz, mutex = Initialised,
             send_list_mutex = Initialised, receive_list_mutex = Initialised,
             send_condition = Initialised, receive_condition = Initialised,
             send_list = list_create send_ok, receive_list = list_create receive_ok,
             closed = False\<rparr>"
  have null: "channel_create None send_ok receive_ok sz s = (None, s)"
    by (simp add: channel_create_def)
  have made: "channel_create (Some a) send_ok receive_ok sz s
                = (Some a, s\<lparr>heap := (heap s)(a \<mapsto> ?c)\<rparr>)"
    by (simp add: channel_create_def)
  have fields: "buffer_capacity (buffer ?c) = sz" "buffer_current_size (buffer ?c) = 0"
    "contents (buffer ?c) = []" "closed ?c = False" "mutex ?c = Initialised"
    "send_list ?c = (if send_ok then Some \<lparr>head = [], count = 0\<rparr> else None)"
    "receive_list ?c = (if receive_ok then Some \<lparr>head = [], count = 0\<rparr> else None)"
    by (simp_all add: buffer_create_def buffer_capacity_def buffer_current_size_def
        list_create_def)
  from null made fields show ?thesis by blast
qed

text \<open>
  Claim C9 says that \<open>channel_create\<close> returns a null handle on allocation failure
  and otherwise a channel with two empty registries. Here the channel structure is
  allocated (at address \<open>1\<close>) and the \<open>malloc\<close> of the first \<open>list_create\<close> fails:
  the handle returned is not null, and the send list of the channel is \<open>NULL\<close>.
\<close>

theorem channel_create_list_malloc_fails:
  "fst (channel_create (Some 1) False True 4 \<lparr>heap = Map.empty, sems = (\<lambda>t. 0)\<rparr>) = Some 1 \<and>
   map_option send_list
     (heap (snd (channel_create (Some 1) False True 4 \<lparr>heap = Map.empty, sems = (\<lambda>t. 0)\<rparr>)) 1)
     = Some None"
  by (simp add: channel_create_def list_create_def)

subsection \<open>Send and receive\<close>

lemma heap_fold_sem_post [simp]: "heap (fold sem_post ts s) = heap s"
  by (induction ts arbitrary: s) (simp_all add: sem_post_def)

lemma heap_list_foreach_sem_post [simp]:
  "heap (list_foreach l (Some sem_post) s) = heap s"
  by (simp add: list_foreach_def split: option.splits)

lemma send_commit_heap:
  "heap s a = Some c \<Longrightarrow>
   \<exists>s'. send_commit a v s = Returns (SUCCESS, s') \<and>
        heap s' = (heap s)(a \<mapsto> c\<lparr>buffer := buffer_add v (buffer c)\<rparr>)"
  by (simp add: send_commit_def Let_def)

lemma receive_commit_heap:
  "heap s a = Some c \<Longrightarrow> contents (buffer c) = v # vs \<Longrightarrow>
   \<exists>s'. receive_commit a s = Returns (SUCCESS, v, s') \<and>
        heap s' = (heap s)(a \<mapsto> c\<lparr>buffer := (buffer c)\<lparr>contents := vs\<rparr>\<rparr>)"
  by (simp add: receive_commit_def buffer_remove_def Let_def)

lemma buffer_nonempty:
  "buffer_current_size b \<noteq> 0 \<Longrightarrow> \<exists>v vs. contents b = v # vs"
  by (cases "contents b") (simp_all add: buffer_current_size_def)

lemma send_wait_room:
  "heap s a = Some c \<Longrightarrow> buffer_capacity (buffer c) - buffer_current_size (buffer c) \<noteq> 0 \<Longrightarrow>
   send_wait env a s = Returns (None, s)"
  by (cases env) simp_all

lemma receive_wait_filled:
  "heap s a = Some c \<Longrightarrow> buffer_current_size (buffer c) \<noteq> 0 \<Longrightarrow>
   receive_wait env a s = Returns (None, s)"
  by (cases env) simp_all

lemma send_wait_nil:
  "send_wait [] a s = Returns (r, s') \<Longrightarrow> r = None \<and> s' = s \<and>
     (\<exists>c. heap s a = Some c \<and> buffer_capacity (buffer c) - buffer_current_size (buffer c) \<noteq> 0)"
  by (auto split: option.splits if_splits)

lemma receive_wait_nil:
  "receive_wait [] a s = Returns (r, s') \<Longrightarrow> r = None \<and> s' = s \<and>
     (\<exists>c. heap s a = Some c \<and> buffer_current_size (buffer c) \<noteq> 0)"
  by (auto split: option.splits if_splits)

lemma channel_send_step:
  assumes "heap s a = Some c" and "channel_send [] (Some a) v blocking s = Returns (st, s')"
  shows "(st = SUCCESS \<and> heap s' a = Some (c\<lparr>buffer := buffer_add v (buffer c)\<rparr>)) \<or>
         (st \<noteq> SUCCESS \<and> s' = s)"
proof (cases "\<not> blocking \<and> pthread_mutex_lock (mutex c) \<noteq> 0 \<or> closed c")
  case True
  with assms show ?thesis by (auto simp: channel_send_def split: if_splits)
next
  case False
  show ?thesis
  proof (cases "buffer_capacity (buffer c) - buffer_current_size (buffer c) = 0")
    case True
    with False assms show ?thesis
      by (cases blocking) (auto simp: channel_send_def)
  next
    case room: False
    with False assms send_wait_room [OF assms(1) room, of "[]"]
    have "send_commit a v s = Returns (st, s')"
      by (cases blocking) (auto simp: channel_send_def)
    with send_commit_heap [OF assms(1), of v] show ?thesis by auto
  qed
qed

lemma channel_receive_step:
  assumes "heap s a = Some c" and "channel_receive [] (Some a) slot blocking s = Returns (st, v, s')"
  shows "(st = SUCCESS \<and> (\<exists>vs. contents (buffer c) = v # vs \<and>
            heap s' a = Some (c\<lparr>buffer := (buffer c)\<lparr>contents := vs\<rparr>\<rparr>))) \<or>
         (st \<noteq> SUCCESS \<and> s' = s)"
proof (cases "\<not> blocking \<and> pthread_mutex_lock (mutex c) \<noteq> 0 \<or> closed c")
  case True
  with assms show ?thesis by (auto simp: channel_receive_def split: if_splits)
next
  case False
  show ?thesis
  proof (cases "buffer_current_size (buffer c) = 0")
    case True
    with False assms show ?thesis
      by (cases blocking) (auto simp: channel_receive_def)
  next
    case filled: False
    then obtain w ws where ws: "contents (buffer c) = w # ws"
      using buffer_nonempty by blast
    from False assms filled receive_wait_filled [OF assms(1) filled, of "[]"]
    have "receive_commit a s = Returns (st, v, s')"
      by (cases blocking) (auto simp: channel_receive_def)
    with receive_commit_heap [OF assms(1) ws] ws show ?thesis by auto
  qed
qed

lemma run_fifo:
  "heap s a = Some c \<Longrightarrow> run a ops s = Returns (sent, received, s') \<Longrightarrow>
   \<exists>c'. heap s' a = Some c' \<and>
        contents (buffer c) @ sent = received @ contents (buffer c')"
proof (induction ops arbitrary: s c sent received)
  case Nil
  then show ?case by simp
next
  case (Cons x ops)
  show ?case
  proof (cases x)
    case (Send v blocking)
    with Cons.prems obtain st s1 sent1 where
      step: "channel_send [] (Some a) v blocking s = Returns (st, s1)"
      and rest: "run a ops s1 = Returns (sent1, received, s')"
      and sent: "sent = (if st = SUCCESS then [v] else []) @ sent1"
      by (auto split: outcome.splits)
    from channel_send_step [OF Cons.prems(1) step]
    show ?thesis
    proof
      assume ok: "st = SUCCESS \<and> heap s1 a = Some (c\<lparr>buffer := buffer_add v (buffer c)\<rparr>)"
      with Cons.IH [OF _ rest] sent show ?thesis
        by (auto simp: buffer_add_def)
    next
      assume "st \<noteq> SUCCESS \<and> s1 = s"
      with Cons.IH [OF _ rest] Cons.prems(1) sent show ?thesis by auto
    qed
  next
    case (Receive blocking)
    with Cons.prems obtain st v s1 received1 where
      step: "channel_receive [] (Some a) 0 blocking s = Returns (st, v, s1)"
      and rest: "run a ops s1 = Returns (sent, received1, s')"
      and rcvd: "received = (if st = SUCCESS then [v] else []) @ received1"
      by (auto split: outcome.splits)
    from channel_receive_step [OF Cons.prems(1) step]
    show ?thesis
    proof
      assume "st = SUCCESS \<and> (\<exists>vs. contents (buffer c) = v # vs \<and>
            heap s1 a = Some (c\<lparr>buffer := (buffer c)\<lparr>contents := vs\<rparr>\<rparr>))"
      with Cons.IH [OF _ rest] rcvd show ?thesis by auto
    next
      assume "st \<noteq> SUCCESS \<and> s1 = s"
      with Cons.IH [OF _ rest] Cons.prems(1) rcvd show ?thesis by auto
    qed
  qed
qed

lemma round_trip:
  assumes "heap s a = Some c" and "\<not> closed c" and "mutex c = Initialised"
    and "contents (buffer c) = []" and "buffer_capacity (buffer c) \<noteq> 0"
  shows "\<exists>s1 s2. channel_send env (Some a) v b1 s = Returns (SUCCESS, s1) \<and>
           channel_receive env' (Some a) slot b2 s1 = Returns (SUCCESS, v, s2)"
proof -
  let ?c1 = "c\<lparr>buffer := buffer_add v (buffer c)\<rparr>"
  from assms have room: "buffer_capacity (buffer c) - buffer_current_size (buffer c) \<noteq> 0"
    by (simp add: buffer_current_size_def)
  from send_commit_heap [OF assms(1), of v] obtain s1 where
    commit: "send_commit a v s = Returns (SUCCESS, s1)" and h1: "heap s1 a = Some ?c1"
    by auto
  from assms room send_wait_room [OF assms(1) room, of env] commit
  have sent: "channel_send env (Some a) v b1 s = Returns (SUCCESS, s1)"
    by (cases b1) (simp_all add: channel_send_def pthread_mutex_lock_def)
  from assms have c1: "contents (buffer ?c1) = [v]" "\<not> closed ?c1" "mutex ?c1 = Initialised"
    by (simp_all add: buffer_add_def)
  then have filled: "buffer_current_size (buffer ?c1) \<noteq> 0"
    by (simp add: buffer_current_size_def)
  from receive_commit_heap [OF h1 c1(1)] obtain s2 where
    rc: "receive_commit a s1 = Returns (SUCCESS, v, s2)" by auto
  from h1 c1 filled receive_wait_filled [OF h1 filled, of env'] rc
  have "channel_receive env' (Some a) slot b2 s1 = Returns (SUCCESS, v, s2)"
    by (cases b2) (simp_all add: channel_receive_def pthread_mutex_lock_def)
  with sent show ?thesis by blast
qed

text \<open>
  Claim C2. On a channel whose closed flag is set, \<open>channel_send\<close> and
  \<open>channel_receive\<close> return \<open>CLOSED_ERROR\<close> in blocking and in non-blocking mode,
  whatever the buffer holds; the state (and so the buffer) is the one before the call
  and the out-slot keeps its content.
\<close>

theorem closed_channel_rejects:
  assumes "heap s a = Some c" and "closed c" and "mutex c = Initialised"
  shows "channel_send env (Some a) v blocking s = Returns (CLOSED_ERROR, s) \<and>
         channel_receive env' (Some a) slot blocking' s = Returns (CLOSED_ERROR, slot, s)"
  using assms by (simp add: channel_send_def channel_receive_def pthread_mutex_lock_def)

theorem closed_channel_rejects_witness:
  "channel_send [] (Some 1) 9 True (one_chan (chan_with 2 [7] True))
     = Returns (CLOSED_ERROR, one_chan (chan_with 2 [7] True)) \<and>
   channel_send [] (Some 1) 9 False (one_chan (chan_with 2 [7] True))
     = Returns (CLOSED_ERROR, one_chan (chan_with 2 [7] True)) \<and>
   channel_receive [] (Some 1) 0 True (one_chan (chan_with 2 [7] True))
     = Returns (CLOSED_ERROR, 0, one_chan (chan_with 2 [7] True)) \<and>
   channel_receive [] (Some 1) 0 False (one_chan (chan_with 2 [7] True))
     = Returns (CLOSED_ERROR, 0, one_chan (chan_with 2 [7] True))"
  using closed_channel_rejects [of "one_chan (chan_with 2 [7] True)" 1 "chan_with 2 [7] True"
      "[]" 9 True "[]" 0 True]
    closed_channel_rejects [of "one_chan (chan_with 2 [7] True)" 1 "chan_with 2 [7] True"
      "[]" 9 False "[]" 0 False]
  by (simp add: one_chan_def chan_with_def)

text \<open>
  Claim C3. On an open channel, a non-blocking \<open>channel_send\<close> returns \<open>WOULDBLOCK\<close>
  and leaves the state as it is when the buffer's size equals its capacity; otherwise
  it returns \<open>SUCCESS\<close> and the channel's buffer is \<open>buffer_add\<close> of the value and the
  old buffer, that is, the old contents with the value appended at the tail; no other
  channel changes.
\<close>

theorem channel_send_nonblocking:
  assumes "heap s a = Some c" and "\<not> closed c" and "mutex c = Initialised"
  shows "(buffer_current_size (buffer c) = buffer_capacity (buffer c) \<longrightarrow>
            channel_send env (Some a) v False s = Returns (WOULDBLOCK, s)) \<and>
         (buffer_current_size (buffer c) \<noteq> buffer_capacity (buffer c) \<longrightarrow>
            (\<exists>s'. channel_send env (Some a) v False s = Returns (SUCCESS, s') \<and>
                  heap s' = (heap s)(a \<mapsto> c\<lparr>buffer := buffer_add v (buffer c)\<rparr>) \<and>
                  buffer_add v (buffer c) = (buffer c)\<lparr>contents := contents (buffer c) @ [v]\<rparr>))"
proof (intro conjI impI)
  assume "buffer_current_size (buffer c) = buffer_capacity (buffer c)"
  with assms show "channel_send env (Some a) v False s = Returns (WOULDBLOCK, s)"
    by (simp add: channel_send_def pthread_mutex_lock_def)
next
  assume "buffer_current_size (buffer c) \<noteq> buffer_capacity (buffer c)"
  then have room: "buffer_capacity (buffer c) - buffer_current_size (buffer c) \<noteq> 0"
    by simp
  from assms room have "channel_send env (Some a) v False s = send_commit a v s"
    by (simp add: channel_send_def pthread_mutex_lock_def)
  with send_commit_heap [OF assms(1), of v]
  show "\<exists>s'. channel_send env (Some a) v False s = Returns (SUCCESS, s') \<and>
          heap s' = (heap s)(a \<mapsto> c\<lparr>buffer := buffer_add v (buffer c)\<rparr>) \<and>
          buffer_add v (buffer c) = (buffer c)\<lparr>contents := contents (buffer c) @ [v]\<rparr>"
    by (simp add: buffer_add_def)
qed

theorem channel_send_nonblocking_witness:
  "channel_send [] (Some 1) 9 False (one_chan (chan_with 1 [7] False))
     = Returns (WOULDBLOCK, one_chan (chan_with 1 [7] False)) \<and>
   (\<exists>s'. channel_send [] (Some 1) 9 False (one_chan (chan_with 2 [7] False))
            = Returns (SUCCESS, s') \<and>
         heap s' = [1 \<mapsto> chan_with 2 [7, 9] False])"
  using channel_send_nonblocking [of "one_chan (chan_with 1 [7] False)" 1
      "chan_with 1 [7] False" "[]" 9]
    channel_send_nonblocking [of "one_chan (chan_with 2 [7] False)" 1
      "chan_with 2 [7] False" "[]" 9]
  by (simp add: one_chan_def chan_with_def buffer_current_size_def buffer_capacity_def
      buffer_add_def)

text \<open>
  Claim C4. On an open channel, a non-blocking \<open>channel_receive\<close> returns \<open>WOULDBLOCK\<close>
  and leaves the out-slot and the state as they are when the buffer's size is \<open>0\<close>;
  otherwise it returns \<open>SUCCESS\<close>, the out-slot holds the oldest buffered value, and
  that value has left the buffer.
\<close>

theorem channel_receive_nonblocking:
  assumes "heap s a = Some c" and "\<not> closed c" and "mutex c = Initialised"
  shows "(buffer_current_size (buffer c) = 0 \<longrightarrow>
            channel_receive env (Some a) slot False s = Returns (WOULDBLOCK, slot, s)) \<and>
         (buffer_current_size (buffer c) \<noteq> 0 \<longrightarrow>
            (\<exists>v vs s'. contents (buffer c) = v # vs \<and>
                  channel_receive env (Some a) slot False s = Returns (SUCCESS, v, s') \<and>
                  heap s' = (heap s)(a \<mapsto> c\<lparr>buffer := (buffer c)\<lparr>contents := vs\<rparr>\<rparr>)))"
proof (intro conjI impI)
  assume "buffer_current_size (buffer c) = 0"
  with assms show "channel_receive env (Some a) slot False s = Returns (WOULDBLOCK, slot, s)"
    by (simp add: channel_receive_def pthread_mutex_lock_def)
next
  assume filled: "buffer_current_size (buffer c) \<noteq> 0"
  then obtain v vs where vs: "contents (buffer c) = v # vs"
    using buffer_nonempty by blast
  from assms filled have "channel_receive env (Some a) slot False s = receive_commit a s"
    by (simp add: channel_receive_def pthread_mutex_lock_def)
  with receive_commit_heap [OF assms(1) vs] vs
  show "\<exists>v vs s'. contents (buffer c) = v # vs \<and>
          channel_receive env (Some a) slot False s = Returns (SUCCESS, v, s') \<and>
          heap s' = (heap s)(a \<mapsto> c\<lparr>buffer := (buffer c)\<lparr>contents := vs\<rparr>\<rparr>)"
    by simp
qed

theorem channel_receive_nonblocking_witness:
  "channel_receive [] (Some 1) 0 False (one_chan (chan_with 2 [] False))
     = Returns (WOULDBLOCK, 0, one_chan (chan_with 2 [] False)) \<and>
   (\<exists>s'. channel_receive [] (Some 1) 0 False (one_chan (chan_with 2 [7, 9] False))
            = Returns (SUCCESS, 7, s') \<and>
         heap s' = [1 \<mapsto> chan_with 2 [9] False])"
  using channel_receive_nonblocking [of "one_chan (chan_with 2 [] False)" 1
      "chan_with 2 [] False" "[]" 0]
    channel_receive_nonblocking [of "one_chan (chan_with 2 [7, 9] False)" 1
      "chan_with 2 [7, 9] False" "[]" 0]
  by (simp add: one_chan_def chan_with_def buffer_current_size_def)

text \<open>
  Claim C10. When the channel's mutex is initialised, \<open>pthread_mutex_lock\<close> returns
  \<open>0\<close>, so the non-blocking calls never leave through the branch that answers
  \<open>WOULDBLOCK\<close> for a failed lock: they go on to the closed check and the buffer
  check, and answer \<open>WOULDBLOCK\<close> only for a full (send) or empty (receive) buffer.
\<close>

theorem lock_failure_branch_unreachable:
  assumes "heap s a = Some c" and "mutex c = Initialised"
  shows "pthread_mutex_lock (mutex c) = 0 \<and>
         channel_send env (Some a) v False s =
           (if closed c then Returns (CLOSED_ERROR, s)
            else if buffer_capacity (buffer c) - buffer_current_size (buffer c) = 0
              then Returns (WOULDBLOCK, s)
            else send_commit a v s) \<and>
         channel_receive env (Some a) slot False s =
           (if closed c then Returns (CLOSED_ERROR, slot, s)
            else if buffer_current_size (buffer c) = 0 then Returns (WOULDBLOCK, slot, s)
            else receive_commit a s)"
  using assms by (simp add: channel_send_def channel_receive_def pthread_mutex_lock_def)

theorem lock_failure_branch_unreachable_witness:
  "pthread_mutex_lock (mutex (chan_with 1 [7] False)) = 0 \<and>
   channel_send [] (Some 1) 9 False (one_chan (chan_with 1 [7] False))
     = Returns (WOULDBLOCK, one_chan (chan_with 1 [7] False)) \<and>
   channel_receive [] (Some 1) 0 False (one_chan (chan_with 1 [7] False))
     = receive_commit 1 (one_chan (chan_with 1 [7] False))"
  using lock_failure_branch_unreachable [of "one_chan (chan_with 1 [7] False)" 1
      "chan_with 1 [7] False" "[]" 9 0]
  by (simp add: one_chan_def chan_with_def buffer_current_size_def buffer_capacity_def)

text \<open>The branch is not dead code of the model: an uninitialised mutex takes it.\<close>

lemma lock_failure_branch_taken:
  "heap s a = Some c \<Longrightarrow> mutex c = Uninitialised \<Longrightarrow>
   channel_send env (Some a) v False s = Returns (WOULDBLOCK, s) \<and>
   channel_receive env (Some a) slot False s = Returns (WOULDBLOCK, slot, s)"
  by (simp add: channel_send_def channel_receive_def pthread_mutex_lock_def EINVAL_def)

subsection \<open>Order of the values\<close>

text \<open>
  Claim C5, as the code has it. On an open channel with an initialised mutex, an empty
  buffer and a capacity other than \<open>0\<close>, \<open>channel_send\<close> of \<open>v\<close> followed by
  \<open>channel_receive\<close> returns \<open>SUCCESS\<close> twice and stores \<open>v\<close> in the out-slot, in either
  mode. For one thread that sends and receives in sequence on any channel, the values
  buffered at the start followed by the values sent are the values received followed
  by the values buffered at the end: from an empty buffer the received values are a
  prefix of the sent ones, and all of them once the buffer is empty again.
\<close>

theorem send_receive_fifo:
  assumes "heap s a = Some c"
  shows "(\<not> closed c \<and> mutex c = Initialised \<and> contents (buffer c) = [] \<and>
            buffer_capacity (buffer c) \<noteq> 0 \<longrightarrow>
          (\<exists>s1 s2. channel_send env (Some a) v b1 s = Returns (SUCCESS, s1) \<and>
                   channel_receive env' (Some a) slot b2 s1 = Returns (SUCCESS, v, s2))) \<and>
         (\<forall>ops sent received s'.
            run a ops s = Returns (sent, received, s') \<longrightarrow>
            (\<exists>c'. heap s' a = Some c' \<and>
                  contents (buffer c) @ sent = received @ contents (buffer c')))"
proof (intro conjI allI impI)
  assume "\<not> closed c \<and> mutex c = Initialised \<and> contents (buffer c) = [] \<and>
            buffer_capacity (buffer c) \<noteq> 0"
  with assms round_trip [of s a c env v b1 env' slot b2]
  show "\<exists>s1 s2. channel_send env (Some a) v b1 s = Returns (SUCCESS, s1) \<and>
          channel_receive env' (Some a) slot b2 s1 = Returns (SUCCESS, v, s2)"
    by simp
next
  fix ops sent received s'
  assume "run a ops s = Returns (sent, received, s')"
  with assms show "\<exists>c'. heap s' a = Some c' \<and>
          contents (buffer c) @ sent = received @ contents (buffer c')"
    by (rule run_fifo)
qed

theorem send_receive_fifo_witness:
  "(\<exists>s1 s2. channel_send [] (Some 1) 9 False (one_chan (chan_with 2 [] False))
              = Returns (SUCCESS, s1) \<and>
            channel_receive [] (Some 1) 0 True s1 = Returns (SUCCESS, 9, s2)) \<and>
   (\<exists>s'. run 1 [Send 3 False, Send 4 True, Send 5 False, Receive False, Send 6 False,
                Receive True, Receive False, Receive False]
            (one_chan (chan_with 2 [] False))
          = Returns ([3, 4, 6], [3, 4, 6], s') \<and>
         heap s' = [1 \<mapsto> chan_with 2 [] False])"
proof -
  let ?s = "one_chan (chan_with 2 [] False)"
  let ?ops = "[Send 3 False, Send 4 True, Send 5 False, Receive False, Send 6 False,
                Receive True, Receive False, Receive False]"
  have h: "heap ?s 1 = Some (chan_with 2 [] False)"
    by (simp add: one_chan_def)
  have open_empty: "\<not> closed (chan_with 2 [] False) \<and> mutex (chan_with 2 [] False) = Initialised \<and>
      contents (buffer (chan_with 2 [] False)) = [] \<and>
      buffer_capacity (buffer (chan_with 2 [] False)) \<noteq> 0"
    by (simp add: chan_with_def buffer_capacity_def)
  have r: "\<exists>s'. run 1 ?ops ?s = Returns ([3, 4, 6], [3, 4, 6], s') \<and>
            heap s' = [1 \<mapsto> chan_with 2 [] False]"
    by (simp add: one_chan_def chan_with_def channel_send_def channel_receive_def
        send_commit_def receive_commit_def pthread_mutex_lock_def buffer_current_size_def
        buffer_capacity_def buffer_add_def buffer_remove_def list_count_def Let_def)
  from send_receive_fifo [OF h, of "[]" 9 False "[]" 0 True] open_empty r
  show ?thesis by blast
qed

text \<open>
  Claim C5 as stated promises the round trip on every open channel that is not full.
  A channel of capacity \<open>2\<close> that holds \<open>7\<close> is open and not full; after the send of
  \<open>9\<close> the receive stores \<open>7\<close>.
\<close>

theorem round_trip_nonempty_counterexample:
  "channel_send [] (Some 1) 9 False (one_chan (chan_with 2 [7] False))
     = Returns (SUCCESS, one_chan (chan_with 2 [7, 9] False)) \<and>
   channel_receive [] (Some 1) 0 False (one_chan (chan_with 2 [7, 9] False))
     = Returns (SUCCESS, 7, one_chan (chan_with 2 [9] False)) \<and>
   (7 :: addr) \<noteq> 9"
  by (simp add: one_chan_def chan_with_def channel_send_def channel_receive_def
      send_commit_def receive_commit_def pthread_mutex_lock_def buffer_current_size_def
      buffer_capacity_def buffer_add_def buffer_remove_def list_count_def Let_def)

subsection \<open>Frames of the steps of \<open>channel_select\<close>\<close>

lemma same_core_refl [simp]: "same_core s s"
  by (simp add: same_core_def)

lemma same_core_trans: "same_core s s' \<Longrightarrow> same_core s' s'' \<Longrightarrow> same_core s s''"
  by (simp add: same_core_def)

lemma same_core_lookup:
  assumes "same_core s s'" and "heap s a = Some c"
  shows "\<exists>c'. heap s' a = Some c' \<and> buffer c' = buffer c \<and> mutex c' = mutex c \<and> closed c' = closed c"
proof -
  from assms have "map_option core (heap s' a) = Some (core c)"
    by (simp add: same_core_def)
  then show ?thesis by (auto simp: core_def)
qed

lemma same_core_none:
  assumes "same_core s s'" and "heap s a = None"
  shows "heap s' a = None"
proof -
  from assms have "map_option core (heap s' a) = None"
    by (simp add: same_core_def)
  then show ?thesis by simp
qed

lemma same_core_closed: "same_core s s' \<Longrightarrow> is_closed s' b = is_closed s b"
  by (cases "heap s b") (auto simp: is_closed_def dest: same_core_lookup same_core_none)

lemma same_core_update:
  "heap s a = Some c \<Longrightarrow> buffer c' = buffer c \<Longrightarrow> mutex c' = mutex c \<Longrightarrow> closed c' = closed c \<Longrightarrow>
   same_core s (s\<lparr>heap := (heap s)(a \<mapsto> c')\<rparr>)"
  by (simp add: same_core_def core_def)

lemma register_entry_core:
  "register_entry ok t e s = Returns s' \<Longrightarrow> same_core s s' \<and> sems s' = sems s"
  by (auto simp: register_entry_def same_core_update split: option.splits if_splits)

lemma deregister_entry_core:
  "deregister_entry t e s = Returns s' \<Longrightarrow> same_core s s' \<and> sems s' = sems s"
  by (auto simp: deregister_entry_def Let_def same_core_update split: option.splits if_splits)

lemma register_loop_core:
  "register_loop mallocs t n es i s = Returns s' \<Longrightarrow> same_core s s' \<and> sems s' = sems s"
proof (induction mallocs t n es i s rule: register_loop.induct)
  case (1 mallocs t n es i s)
  show ?case
  proof (cases "i < n")
    case False
    with "1.prems" show ?thesis by (simp add: register_loop.simps [of mallocs t n es i s])
  next
    case True
    with "1.prems" obtain s1 where len: "i < length es"
      and step: "register_entry (mallocs i) t (es ! i) s = Returns s1"
      and rest: "register_loop mallocs t n es (Suc i) s1 = Returns s'"
      by (auto simp: register_loop.simps [of mallocs t n es i s] split: if_splits outcome.splits)
    from "1.IH" [OF True len step rest] register_entry_core [OF step]
    show ?thesis by (auto intro: same_core_trans)
  qed
qed

lemma deregister_loop_core:
  "deregister_loop t n es i s = Returns s' \<Longrightarrow> same_core s s' \<and> sems s' = sems s"
proof (induction t n es i s rule: deregister_loop.induct)
  case (1 t n es i s)
  show ?case
  proof (cases "i < n")
    case False
    with "1.prems" show ?thesis by (simp add: deregister_loop.simps [of t n es i s])
  next
    case True
    with "1.prems" obtain s1 where len: "i < length es"
      and step: "deregister_entry t (es ! i) s = Returns s1"
      and rest: "deregister_loop t n es (Suc i) s1 = Returns s'"
      by (auto simp: deregister_loop.simps [of t n es i s] split: if_splits outcome.splits)
    from "1.IH" [OF True len step rest] deregister_entry_core [OF step]
    show ?thesis by (auto intro: same_core_trans)
  qed
qed

lemma same_lists_refl [simp]: "same_lists s s"
  by (simp add: same_lists_def)

lemma same_lists_trans: "same_lists s s' \<Longrightarrow> same_lists s' s'' \<Longrightarrow> same_lists s s''"
  by (simp add: same_lists_def)

lemma same_lists_lookup:
  assumes "same_lists s s'" and "heap s' a = Some c'"
  shows "\<exists>c. heap s a = Some c \<and> send_list c' = send_list c \<and> receive_list c' = receive_list c \<and>
             closed c' = closed c \<and> mutex c' = mutex c"
proof -
  from assms(1) have "map_option (\<lambda>c. (send_list c, receive_list c, closed c, mutex c)) (heap s' a)
      = map_option (\<lambda>c. (send_list c, receive_list c, closed c, mutex c)) (heap s a)"
    unfolding same_lists_def by (rule spec)
  with assms(2) show ?thesis by (cases "heap s a") auto
qed

lemma same_lists_none:
  assumes "same_lists s s'" and "heap s' a = None"
  shows "heap s a = None"
proof -
  from assms(1) have "map_option (\<lambda>c. (send_list c, receive_list c, closed c, mutex c)) (heap s' a)
      = map_option (\<lambda>c. (send_list c, receive_list c, closed c, mutex c)) (heap s a)"
    unfolding same_lists_def by (rule spec)
  with assms(2) show ?thesis by (cases "heap s a") auto
qed

lemma same_lists_closed: "same_lists s s' \<Longrightarrow> is_closed s' b = is_closed s b"
  by (cases "heap s' b") (auto simp: is_closed_def dest: same_lists_lookup same_lists_none)

lemma send_commit_lists:
  "send_commit a v s = Returns (st, s') \<Longrightarrow> same_lists s s'"
  by (auto simp: send_commit_def Let_def same_lists_def split: option.splits)

lemma receive_commit_lists:
  "receive_commit a s = Returns (st, v, s') \<Longrightarrow> same_lists s s'"
  by (auto simp: receive_commit_def Let_def same_lists_def split: option.splits)

lemma channel_send_nonblocking_lists:
  "channel_send env ch v False s = Returns (st, s') \<Longrightarrow> same_lists s s'"
  by (auto simp: channel_send_def dest: send_commit_lists split: option.splits if_splits)

lemma channel_receive_nonblocking_lists:
  "channel_receive env ch slot False s = Returns (st, v, s') \<Longrightarrow> same_lists s s'"
  by (auto simp: channel_receive_def dest: receive_commit_lists split: option.splits if_splits)

lemma probe_entry_lists:
  "probe_entry env e s = Returns (st, e', s') \<Longrightarrow>
   same_lists s s' \<and> channel e' = channel e \<and> is_send e' = is_send e"
  by (auto simp: probe_entry_def split: if_splits outcome.splits
      dest: channel_send_nonblocking_lists channel_receive_nonblocking_lists)

lemma probe_loop_some:
  "probe_loop env n es i0 s = Returns (Some (i, st), es', s') \<Longrightarrow>
   i0 \<le> i \<and> i < n \<and> i < length es \<and> st \<noteq> WOULDBLOCK \<and>
   (\<forall>j. i0 \<le> j \<and> j < i \<longrightarrow> probe_entry env (es ! j) s = Returns (WOULDBLOCK, es ! j, s)) \<and>
   (\<exists>e'. probe_entry env (es ! i) s = Returns (st, e', s') \<and> es' = es[i := e'])"
proof (induction env n es i0 s rule: probe_loop.induct)
  case (1 env n es i0 s)
  from "1.prems" have bounds: "i0 < n" "i0 < length es"
    by (auto simp: probe_loop.simps [of env n es i0 s] split: if_splits)
  with "1.prems" obtain st0 e0 s0 where
    pe: "probe_entry env (es ! i0) s = Returns (st0, e0, s0)"
    by (auto simp: probe_loop.simps [of env n es i0 s] split: outcome.splits)
  show ?case
  proof (cases "st0 = WOULDBLOCK")
    case False
    with "1.prems" bounds pe show ?thesis
      by (auto simp: probe_loop.simps [of env n es i0 s])
  next
    case True
    with pe have same: "e0 = es ! i0" "s0 = s"
      by (auto dest: probe_entry_wouldblock)
    with "1.prems" bounds pe True
    have rest: "probe_loop env n es (Suc i0) s = Returns (Some (i, st), es', s')"
      by (simp add: probe_loop.simps [of env n es i0 s])
    from "1.IH" [of "(st0, e0, s0)" st0 "(e0, s0)" e0 s0] bounds pe True same rest
    have ih: "Suc i0 \<le> i \<and> i < n \<and> i < length es \<and> st \<noteq> WOULDBLOCK \<and>
      (\<forall>j. Suc i0 \<le> j \<and> j < i \<longrightarrow> probe_entry env (es ! j) s = Returns (WOULDBLOCK, es ! j, s)) \<and>
      (\<exists>e'. probe_entry env (es ! i) s = Returns (st, e', s') \<and> es' = es[i := e'])"
      by simp
    have "\<forall>j. i0 \<le> j \<and> j < i \<longrightarrow> probe_entry env (es ! j) s = Returns (WOULDBLOCK, es ! j, s)"
    proof (intro allI impI)
      fix j assume j: "i0 \<le> j \<and> j < i"
      show "probe_entry env (es ! j) s = Returns (WOULDBLOCK, es ! j, s)"
      proof (cases "j = i0")
        case True
        with pe \<open>st0 = WOULDBLOCK\<close> same show ?thesis by simp
      next
        case False
        with j ih show ?thesis by simp
      qed
    qed
    with ih show ?thesis by simp
  qed
qed





lemma map_update_same:
  "i < length es \<Longrightarrow> f e' = f (es ! i) \<Longrightarrow> map f (es[i := e']) = map f es"
  by (simp add: map_update list_update_same_conv)







subsection \<open>Invariants of the loops\<close>

text \<open>
  A property of the state that every step of the environment keeps, that does not
  depend on the semaphore counters and that every probe keeps, holds in the state
  from which the last round of probes of \<open>select_loop\<close> starts deregistration.
\<close>

lemma sem_wait_inv:
  assumes "\<And>e s. e \<in> set env \<Longrightarrow> P s \<Longrightarrow> P (e s)"
    and "\<And>s f. P s \<Longrightarrow> P (s\<lparr>sems := f\<rparr>)"
    and "P s" and "sem_wait env t s = Returns (env', s')"
  shows "P s' \<and> set env' \<subseteq> set env"
  using assms
proof (induction env arbitrary: s)
  case Nil
  then show ?case by (auto split: if_splits)
next
  case (Cons e es)
  show ?case
  proof (cases "0 < sems s t")
    case True
    with Cons.prems show ?thesis by auto
  next
    case False
    with Cons.prems have rest: "sem_wait es t (e s) = Returns (env', s')" by simp
    from Cons.prems have "P (e s)" by simp
    from Cons.IH [OF _ Cons.prems(2) this rest] Cons.prems(1)
    show ?thesis by auto
  qed
qed

lemma probe_loop_inv:
  assumes "\<And>e s st e' s'. probe_entry env e s = Returns (st, e', s') \<Longrightarrow> P s \<Longrightarrow> P s'"
    and "P s" and "probe_loop env n es i s = Returns (r, es', s')"
  shows "P s' \<and> map channel es' = map channel es \<and> map is_send es' = map is_send es"
proof (cases r)
  case None
  with assms probe_loop_none [of env n es i s es' s'] show ?thesis by simp
next
  case (Some p)
  obtain k st where "p = (k, st)" by (cases p)
  with Some assms(3) probe_loop_some [of env n es i s k st es' s']
  obtain e' where "k < length es" "probe_entry env (es ! k) s = Returns (st, e', s')"
    "es' = es[k := e']" by auto
  note k = this
  from assms(1) [OF k(2) assms(2)] have "P s'" .
  with k probe_entry_lists [OF k(2)]
  show ?thesis by (simp add: map_update_same)
qed


lemma select_loop_inv:
  assumes "\<And>e s. e \<in> set env \<Longrightarrow> P s \<Longrightarrow> P (e s)"
    and "\<And>s f. P s \<Longrightarrow> P (s\<lparr>sems := f\<rparr>)"
    and "\<And>env e s st e' s'. probe_entry env e s = Returns (st, e', s') \<Longrightarrow> P s \<Longrightarrow> P s'"
    and "P s" and "select_loop env t n es s = Returns (st, es', i, s')"
  shows "\<exists>env' sp s2. P s2 \<and> probe_loop env' n es 0 sp = Returns (Some (i, st), es', s2) \<and>
           deregister_loop t n es' 0 s2 = Returns s'"
  using assms(1,4,5)
proof (induction env t n es s rule: select_loop.induct)
  case (1 env t n es s)
  from "1.prems"(3) obtain r es1 s1 where
    probe: "probe_loop env n es 0 s = Returns (r, es1, s1)"
    by (auto simp: select_loop.simps [of env t n es s] split: outcome.splits)
  have "P s1 \<and> map channel es1 = map channel es \<and> map is_send es1 = map is_send es"
  proof (rule probe_loop_inv [where P = P and s = s])
    show "\<And>e s st e' s'. probe_entry env e s = Returns (st, e', s') \<Longrightarrow> P s \<Longrightarrow> P s'"
      by (rule assms(3))
    show "P s" by (rule "1.prems"(2))
    show "probe_loop env n es 0 s = Returns (r, es1, s1)" by (rule probe)
  qed
  then have P1: "P s1" by simp
  show ?case
  proof (cases r)
    case (Some p)
    obtain k st0 where p: "p = (k, st0)" by (cases p)
    with Some probe "1.prems"(3)
    have "deregister_loop t n es1 0 s1 = Returns s'" "st0 = st" "es1 = es'" "k = i"
      by (auto simp: select_loop.simps [of env t n es s] split: outcome.splits)
    with Some p probe P1 show ?thesis by blast
  next
    case None
    with probe have same: "es1 = es" "s1 = s"
      by (auto dest: probe_loop_none)
    from None probe "1.prems"(3) obtain env1 s2 where
      wait: "sem_wait env t s1 = Returns (env1, s2)"
      and rest: "select_loop env1 t n es1 s2 = Returns (st, es', i, s')"
      by (auto simp: select_loop.simps [of env t n es s] split: outcome.splits)
    have "P s2 \<and> set env1 \<subseteq> set env"
    proof (rule sem_wait_inv [where P = P and s = s1 and t = t])
      show "\<And>e s. e \<in> set env \<Longrightarrow> P s \<Longrightarrow> P (e s)" by (rule "1.prems"(1))
      show "\<And>s f. P s \<Longrightarrow> P (s\<lparr>sems := f\<rparr>)" by (rule assms(2))
      show "P s1" by (rule P1)
      show "sem_wait env t s1 = Returns (env1, s2)" by (rule wait)
    qed
    then have P2: "P s2" and sub: "set env1 \<subseteq> set env" by auto
    from sub "1.prems"(1) have rely: "\<And>e s. e \<in> set env1 \<Longrightarrow> P s \<Longrightarrow> P (e s)"
      by blast
    have "\<exists>env' sp s3. P s3 \<and> probe_loop env' n es1 0 sp = Returns (Some (i, st), es', s3) \<and>
           deregister_loop t n es' 0 s3 = Returns s'"
    proof (rule "1.IH" [of "(r, es1, s1)" r "(es1, s1)" es1 s1 "(env1, s2)" env1 s2])
      show "probe_loop env n es 0 s = Returns (r, es1, s1)" by (rule probe)
      show "(r, es1, s1) = (r, es1, s1)" "(es1, s1) = (es1, s1)" "(env1, s2) = (env1, s2)"
        by simp_all
      show "r = None" by (rule None)
      show "sem_wait env t s1 = Returns (env1, s2)" by (rule wait)
      show "\<And>e s. e \<in> set env1 \<Longrightarrow> P s \<Longrightarrow> P (e s)" by (rule rely)
      show "P s2" by (rule P2)
      show "select_loop env1 t n es1 s2 = Returns (st, es', i, s')" by (rule rest)
    qed
    with same show ?thesis by simp
  qed
qed

lemma is_closed_sems [simp]: "is_closed (s\<lparr>sems := f\<rparr>) b = is_closed s b"
  by (simp add: is_closed_def)

lemma send_wait_inv:
  assumes "\<And>e s. e \<in> set env \<Longrightarrow> P s \<Longrightarrow> P (e s)"
    and "P s" and "send_wait env a s = Returns (r, s')"
  shows "P s'"
  using assms
proof (induction env arbitrary: s)
  case Nil
  then show ?case by (auto split: option.splits if_splits)
next
  case (Cons e es)
  from Cons.prems(1,2) have Pe: "P (e s)" by simp
  from Cons.prems(3) have "s' = s \<or> s' = e s \<or> send_wait es a (e s) = Returns (r, s')"
    by (auto split: option.splits if_splits)
  with Cons.IH [OF _ Pe] Cons.prems(1,2) Pe show ?case by auto
qed

lemma receive_wait_inv:
  assumes "\<And>e s. e \<in> set env \<Longrightarrow> P s \<Longrightarrow> P (e s)"
    and "P s" and "receive_wait env a s = Returns (r, s')"
  shows "P s'"
  using assms
proof (induction env arbitrary: s)
  case Nil
  then show ?case by (auto split: option.splits if_splits)
next
  case (Cons e es)
  from Cons.prems(1,2) have Pe: "P (e s)" by simp
  from Cons.prems(3) have "s' = s \<or> s' = e s \<or> receive_wait es a (e s) = Returns (r, s')"
    by (auto split: option.splits if_splits)
  with Cons.IH [OF _ Pe] Cons.prems(1,2) Pe show ?case by auto
qed

lemma channel_send_closed:
  assumes rely: "\<And>e s. e \<in> set env \<Longrightarrow> is_closed s b \<Longrightarrow> is_closed (e s) b"
    and "is_closed s b" and "channel_send env ch v blocking s = Returns (st, s')"
  shows "is_closed s' b"
proof (cases blocking)
  case False
  with assms(3) have "same_lists s s'" by (auto dest: channel_send_nonblocking_lists)
  from same_lists_closed [OF this, of b] assms(2) show ?thesis by simp
next
  case True
  with assms(3) have "s' = s \<or>
      (\<exists>a r s1. send_wait env a s = Returns (r, s1) \<and>
         (s' = s1 \<or> (\<exists>st'. send_commit a v s1 = Returns (st', s'))))"
    by (fastforce simp: channel_send_def split: option.splits if_splits outcome.splits)
  then show ?thesis
  proof (elim disjE exE conjE)
    assume "s' = s" with assms(2) show ?thesis by simp
  next
    fix a r s1 assume w: "send_wait env a s = Returns (r, s1)" and eq: "s' = s1"
    have "is_closed s1 b"
    proof (rule send_wait_inv [where P = "\<lambda>s. is_closed s b" and env = env and s = s])
      show "\<And>e s. e \<in> set env \<Longrightarrow> is_closed s b \<Longrightarrow> is_closed (e s) b" by (rule rely)
      show "is_closed s b" by (rule assms(2))
      show "send_wait env a s = Returns (r, s1)" by (rule w)
    qed
    with eq show ?thesis by simp
  next
    fix a r s1 st'
    assume w: "send_wait env a s = Returns (r, s1)"
      and c: "send_commit a v s1 = Returns (st', s')"
    have "is_closed s1 b"
    proof (rule send_wait_inv [where P = "\<lambda>s. is_closed s b" and env = env and s = s])
      show "\<And>e s. e \<in> set env \<Longrightarrow> is_closed s b \<Longrightarrow> is_closed (e s) b" by (rule rely)
      show "is_closed s b" by (rule assms(2))
      show "send_wait env a s = Returns (r, s1)" by (rule w)
    qed
    with same_lists_closed [OF send_commit_lists [OF c], of b] show ?thesis by simp
  qed
qed

lemma channel_receive_closed:
  assumes rely: "\<And>e s. e \<in> set env \<Longrightarrow> is_closed s b \<Longrightarrow> is_closed (e s) b"
    and "is_closed s b" and "channel_receive env ch slot blocking s = Returns (st, w, s')"
  shows "is_closed s' b"
proof (cases blocking)
  case False
  with assms(3) have "same_lists s s'" by (auto dest: channel_receive_nonblocking_lists)
  from same_lists_closed [OF this, of b] assms(2) show ?thesis by simp
next
  case True
  with assms(3) have "s' = s \<or>
      (\<exists>a r s1. receive_wait env a s = Returns (r, s1) \<and>
         (s' = s1 \<or> (\<exists>st'. receive_commit a s1 = Returns (st', w, s'))))"
    by (fastforce simp: channel_receive_def split: option.splits if_splits outcome.splits)
  then show ?thesis
  proof (elim disjE exE conjE)
    assume "s' = s" with assms(2) show ?thesis by simp
  next
    fix a r s1 assume w: "receive_wait env a s = Returns (r, s1)" and eq: "s' = s1"
    have "is_closed s1 b"
    proof (rule receive_wait_inv [where P = "\<lambda>s. is_closed s b" and env = env and s = s])
      show "\<And>e s. e \<in> set env \<Longrightarrow> is_closed s b \<Longrightarrow> is_closed (e s) b" by (rule rely)
      show "is_closed s b" by (rule assms(2))
      show "receive_wait env a s = Returns (r, s1)" by (rule w)
    qed
    with eq show ?thesis by simp
  next
    fix a r s1 st'
    assume w: "receive_wait env a s = Returns (r, s1)"
      and c: "receive_commit a s1 = Returns (st', w, s')"
    have "is_closed s1 b"
    proof (rule receive_wait_inv [where P = "\<lambda>s. is_closed s b" and env = env and s = s])
      show "\<And>e s. e \<in> set env \<Longrightarrow> is_closed s b \<Longrightarrow> is_closed (e s) b" by (rule rely)
      show "is_closed s b" by (rule assms(2))
      show "receive_wait env a s = Returns (r, s1)" by (rule w)
    qed
    with same_lists_closed [OF receive_commit_lists [OF c], of b] show ?thesis by simp
  qed
qed

lemma channel_close_closed:
  "is_closed s b \<Longrightarrow> channel_close ch s = Returns (st, s') \<Longrightarrow> is_closed s' b"
  by (auto simp: channel_close_def is_closed_def Let_def split: option.splits if_splits)

lemma channel_close_cases:
  "heap s a = Some c \<Longrightarrow> closed c \<Longrightarrow> channel_close (Some a) s = Returns (CLOSED_ERROR, s)"
  "heap s a = Some c \<Longrightarrow> \<not> closed c \<Longrightarrow>
     \<exists>s'. channel_close (Some a) s = Returns (SUCCESS, s') \<and>
          heap s' = (heap s)(a \<mapsto> c\<lparr>closed := True\<rparr>)"
  by (simp_all add: channel_close_def Let_def)

lemma probe_entry_closed:
  "probe_entry env e s = Returns (st, e', s') \<Longrightarrow> is_closed s b \<Longrightarrow> is_closed s' b"
proof -
  assume p: "probe_entry env e s = Returns (st, e', s')" and c: "is_closed s b"
  from probe_entry_lists [OF p] have "same_lists s s'" by simp
  from same_lists_closed [OF this, of b] c show ?thesis by simp
qed

lemma channel_select_closed:
  assumes rely: "\<And>e s. e \<in> set env \<Longrightarrow> is_closed s b \<Longrightarrow> is_closed (e s) b"
    and cl: "is_closed s b"
    and sel: "channel_select env rc t mallocs n chl idx s = Returns (st, r, i, s')"
  shows "is_closed s' b"
proof (cases "chl = None \<or> n = 0 \<or> rc = - 1")
  case True
  with sel have "s' = s"
    by (auto simp: channel_select_def split: option.splits if_splits)
  with cl show ?thesis by simp
next
  case False
  then obtain es where es: "chl = Some es" by auto
  with False sel obtain s1 es' where
    reg: "register_loop mallocs t n es 0 (s\<lparr>sems := (sems s)(t := 0)\<rparr>) = Returns s1"
    and loop: "select_loop env t n es s1 = Returns (st, es', i, s')"
    by (auto simp: channel_select_def split: outcome.splits)
  from register_loop_core [OF reg] have "same_core (s\<lparr>sems := (sems s)(t := 0)\<rparr>) s1"
    by simp
  from same_core_closed [OF this, of b]
  have "is_closed s1 b = is_closed (s\<lparr>sems := (sems s)(t := 0)\<rparr>) b" .
  with cl have c1: "is_closed s1 b" by simp
  have "\<exists>env' sp s2. is_closed s2 b \<and>
          probe_loop env' n es 0 sp = Returns (Some (i, st), es', s2) \<and>
          deregister_loop t n es' 0 s2 = Returns s'"
  proof (rule select_loop_inv [where P = "\<lambda>s. is_closed s b" and s = s1 and env = env])
    show "\<And>e s. e \<in> set env \<Longrightarrow> is_closed s b \<Longrightarrow> is_closed (e s) b" by (rule rely)
    show "\<And>s f. is_closed s b \<Longrightarrow> is_closed (s\<lparr>sems := f\<rparr>) b" by simp
    show "\<And>env e s st e' s'. probe_entry env e s = Returns (st, e', s') \<Longrightarrow>
        is_closed s b \<Longrightarrow> is_closed s' b" by (rule probe_entry_closed)
    show "is_closed s1 b" by (rule c1)
    show "select_loop env t n es s1 = Returns (st, es', i, s')" by (rule loop)
  qed
  then obtain s2 where "is_closed s2 b" "deregister_loop t n es' 0 s2 = Returns s'"
    by blast
  note d = this
  from deregister_loop_core [OF d(2)] have "same_core s2 s'" by simp
  from same_core_closed [OF this, of b] d(1) show ?thesis by simp
qed

subsection \<open>The closed flag\<close>

text \<open>
  Claim C6. (1) Let \<open>b\<close> be a channel whose closed flag is set, and let no step of the
  environment reset it or free the channel. Then after \<open>channel_send\<close>,
  \<open>channel_receive\<close> (in either mode), \<open>channel_close\<close> and \<open>channel_select\<close>, on any
  channels, the flag of \<open>b\<close> is still set. (2) In every state, \<open>channel_close\<close> on a
  channel whose flag is set returns \<open>CLOSED_ERROR\<close> and changes nothing. (3) In every
  state, \<open>channel_close\<close> on an open channel returns \<open>SUCCESS\<close>, the flag of that
  channel is now set, and nothing else changes in any channel.
\<close>

theorem closed_flag_monotonic:
  "((\<forall>e\<in>set env. \<forall>s. is_closed s b \<longrightarrow> is_closed (e s) b) \<and> is_closed s b \<longrightarrow>
      (\<forall>st s'. channel_send env ch v blocking s = Returns (st, s') \<longrightarrow> is_closed s' b) \<and>
      (\<forall>st w s'. channel_receive env ch slot blocking s = Returns (st, w, s') \<longrightarrow>
         is_closed s' b) \<and>
      (\<forall>st s'. channel_close ch s = Returns (st, s') \<longrightarrow> is_closed s' b) \<and>
      (\<forall>st r i s'. channel_select env rc t mallocs n chl idx s = Returns (st, r, i, s') \<longrightarrow>
         is_closed s' b)) \<and>
   (\<forall>a c. heap s a = Some c \<and> closed c \<longrightarrow>
      channel_close (Some a) s = Returns (CLOSED_ERROR, s)) \<and>
   (\<forall>a c. heap s a = Some c \<and> \<not> closed c \<longrightarrow>
      (\<exists>s'. channel_close (Some a) s = Returns (SUCCESS, s') \<and>
            heap s' = (heap s)(a \<mapsto> c\<lparr>closed := True\<rparr>) \<and>
            is_closed s' a))"
proof -
  have kept: "(\<forall>e\<in>set env. \<forall>s. is_closed s b \<longrightarrow> is_closed (e s) b) \<and> is_closed s b \<longrightarrow>
      (\<forall>st s'. channel_send env ch v blocking s = Returns (st, s') \<longrightarrow> is_closed s' b) \<and>
      (\<forall>st w s'. channel_receive env ch slot blocking s = Returns (st, w, s') \<longrightarrow>
         is_closed s' b) \<and>
      (\<forall>st s'. channel_close ch s = Returns (st, s') \<longrightarrow> is_closed s' b) \<and>
      (\<forall>st r i s'. channel_select env rc t mallocs n chl idx s = Returns (st, r, i, s') \<longrightarrow>
         is_closed s' b)"
  proof
    assume h: "(\<forall>e\<in>set env. \<forall>s. is_closed s b \<longrightarrow> is_closed (e s) b) \<and> is_closed s b"
    then have rely: "\<And>e s. e \<in> set env \<Longrightarrow> is_closed s b \<Longrightarrow> is_closed (e s) b"
      and cl: "is_closed s b" by blast+
    from rely cl
    show "(\<forall>st s'. channel_send env ch v blocking s = Returns (st, s') \<longrightarrow> is_closed s' b) \<and>
      (\<forall>st w s'. channel_receive env ch slot blocking s = Returns (st, w, s') \<longrightarrow>
         is_closed s' b) \<and>
      (\<forall>st s'. channel_close ch s = Returns (st, s') \<longrightarrow> is_closed s' b) \<and>
      (\<forall>st r i s'. channel_select env rc t mallocs n chl idx s = Returns (st, r, i, s') \<longrightarrow>
         is_closed s' b)"
      by (blast intro: channel_send_closed channel_receive_closed channel_close_closed
          channel_select_closed)
  qed
  have again: "\<forall>a c. heap s a = Some c \<and> closed c \<longrightarrow>
      channel_close (Some a) s = Returns (CLOSED_ERROR, s)"
    by (blast intro: channel_close_cases(1))
  have sets: "\<forall>a c. heap s a = Some c \<and> \<not> closed c \<longrightarrow>
      (\<exists>s'. channel_close (Some a) s = Returns (SUCCESS, s') \<and>
            heap s' = (heap s)(a \<mapsto> c\<lparr>closed := True\<rparr>) \<and>
            is_closed s' a)"
  proof (intro allI impI)
    fix a c assume "heap s a = Some c \<and> \<not> closed c"
    then have "heap s a = Some c" "\<not> closed c" by simp_all
    from channel_close_cases(2) [OF this] obtain s' where
      c: "channel_close (Some a) s = Returns (SUCCESS, s')"
      and h: "heap s' = (heap s)(a \<mapsto> c\<lparr>closed := True\<rparr>)" by blast
    from h have "is_closed s' a" by (simp add: is_closed_def)
    with c h show "\<exists>s'. channel_close (Some a) s = Returns (SUCCESS, s') \<and>
            heap s' = (heap s)(a \<mapsto> c\<lparr>closed := True\<rparr>) \<and>
            is_closed s' a" by blast
  qed
  from kept again sets show ?thesis by (intro conjI)
qed

theorem closed_flag_monotonic_witness:
  "is_closed (two_chans (chan_with 1 [] True) (chan_with 1 [] False)) 1 \<and>
   channel_close (Some 1) (two_chans (chan_with 1 [] True) (chan_with 1 [] False))
     = Returns (CLOSED_ERROR, two_chans (chan_with 1 [] True) (chan_with 1 [] False)) \<and>
   (\<exists>s'. channel_close (Some 2) (two_chans (chan_with 1 [] True) (chan_with 1 [] False))
            = Returns (SUCCESS, s') \<and>
         is_closed s' 1 \<and> is_closed s' 2) \<and>
   (\<exists>s'. channel_receive [env_send 2 7] (Some 2) 0 True
            (two_chans (chan_with 1 [] True) (chan_with 1 [] False))
            = Returns (SUCCESS, 7, s') \<and>
         is_closed s' 1) \<and>
   \<not> is_closed (one_chan (chan_with 1 [7] False)) 1 \<and>
   (\<exists>s'. channel_close (Some 1) (one_chan (chan_with 1 [7] False)) = Returns (SUCCESS, s') \<and>
         heap s' = [1 \<mapsto> chan_with 1 [7] True] \<and> is_closed s' 1)"
proof -
  let ?s = "two_chans (chan_with 1 [] True) (chan_with 1 [] False)"
  let ?o = "one_chan (chan_with 1 [7] False)"
  have rely: "\<forall>e\<in>set [env_send 2 7]. \<forall>s. is_closed s 1 \<longrightarrow> is_closed (e s) 1"
  proof (intro ballI allI impI)
    fix e s assume "e \<in> set [env_send 2 7]" and c: "is_closed s 1"
    then have e: "e = env_send 2 7" by simp
    show "is_closed (e s) 1"
    proof (cases "channel_send [] (Some 2) 7 False s")
      case (Returns r)
      obtain st s' where r: "r = (st, s')" by (cases r)
      with Returns have "channel_send [] (Some 2) 7 False s = Returns (st, s')" by simp
      from same_lists_closed [OF channel_send_nonblocking_lists [OF this], of 1] c
      have "is_closed s' 1" by simp
      with Returns r e show ?thesis by (simp add: env_send_def)
    next
      case Blocks
      with c e show ?thesis by (simp add: env_send_def)
    next
      case Undefined
      with c e show ?thesis by (simp add: env_send_def)
    qed
  qed
  have closed1: "is_closed ?s 1"
    by (simp add: is_closed_def two_chans_def chan_with_def)
  have set1: "heap ?s 1 = Some (chan_with 1 [] True) \<and> closed (chan_with 1 [] True)"
    by (simp add: two_chans_def chan_with_def)
  have open2: "heap ?s 2 = Some (chan_with 1 [] False) \<and> \<not> closed (chan_with 1 [] False)"
    by (simp add: two_chans_def chan_with_def)
  have lone: "heap ?o 1 = Some (chan_with 1 [7] False) \<and> \<not> closed (chan_with 1 [7] False)"
    by (simp add: one_chan_def chan_with_def)
  have none_closed: "\<not> is_closed ?o 1"
    by (simp add: is_closed_def one_chan_def chan_with_def)
  have "\<exists>s'. channel_receive [env_send 2 7] (Some 2) 0 True ?s = Returns (SUCCESS, 7, s')"
    by (simp add: eval_defs two_chans_def chan_with_def env_send_def)
  then obtain s2 where
    r2: "channel_receive [env_send 2 7] (Some 2) 0 True ?s = Returns (SUCCESS, 7, s2)" ..
  note T = closed_flag_monotonic [where env = "[env_send 2 7]" and b = 1 and s = ?s]
  note m = T [THEN conjunct1, THEN mp, OF conjI [OF rely closed1]]
  from m [THEN conjunct2, THEN conjunct1, rule_format, OF r2]
  have kept: "is_closed s2 1" .
  from T [THEN conjunct2, THEN conjunct1, rule_format, OF set1]
  have again: "channel_close (Some 1) ?s = Returns (CLOSED_ERROR, ?s)" .
  from T [THEN conjunct2, THEN conjunct2, rule_format, OF open2]
  obtain s' where cl: "channel_close (Some 2) ?s = Returns (SUCCESS, s')"
    and now: "is_closed s' 2"
    by blast
  from m [THEN conjunct2, THEN conjunct2, THEN conjunct1, rule_format, OF cl]
  have still: "is_closed s' 1" .
  from cl still now have two: "\<exists>s'. channel_close (Some 2) ?s = Returns (SUCCESS, s') \<and>
         is_closed s' 1 \<and> is_closed s' 2" by blast
  from r2 kept have recv: "\<exists>s'. channel_receive [env_send 2 7] (Some 2) 0 True ?s
            = Returns (SUCCESS, 7, s') \<and> is_closed s' 1" by blast
  from closed_flag_monotonic [where s = ?o, THEN conjunct2, THEN conjunct2, rule_format, OF lone]
  obtain s3 where c3: "channel_close (Some 1) ?o = Returns (SUCCESS, s3)"
    and h3: "heap s3 = (heap ?o)(1 \<mapsto> (chan_with 1 [7] False)\<lparr>closed := True\<rparr>)"
    and i3: "is_closed s3 1"
    by blast
  from h3 have "heap s3 = [1 \<mapsto> chan_with 1 [7] True]"
    by (simp add: one_chan_def chan_with_def)
  with c3 i3 have single: "\<exists>s'. channel_close (Some 1) ?o = Returns (SUCCESS, s') \<and>
         heap s' = [1 \<mapsto> chan_with 1 [7] True] \<and> is_closed s' 1" by blast
  from closed1 again two recv none_closed single show ?thesis by (intro conjI)
qed

subsection \<open>The order of the probes\<close>

lemma entries_valid_sems [simp]: "entries_valid n es (s\<lparr>sems := f\<rparr>) = entries_valid n es s"
  by (simp add: entries_valid_def)







subsection \<open>The wakeup token\<close>

lemma find_node_None: "find_node xs d i = None \<longleftrightarrow> d \<notin> set xs"
  by (induction xs arbitrary: i) auto

lemma find_node_Some:
  "find_node xs d i = Some k \<Longrightarrow> i \<le> k \<and> k - i < length xs \<and> xs ! (k - i) = d"
proof (induction xs arbitrary: i)
  case Nil
  then show ?case by simp
next
  case (Cons x xs)
  show ?case
  proof (cases "x = d")
    case True
    with Cons.prems show ?thesis by simp
  next
    case False
    with Cons.prems have "find_node xs d (Suc i) = Some k" by simp
    from Cons.IH [OF this] have "Suc i \<le> k" "k - Suc i < length xs" "xs ! (k - Suc i) = d"
      by auto
    moreover from this(1) have "k - i = Suc (k - Suc i)" by simp
    ultimately show ?thesis by simp
  qed
qed

lemma count_list_remove:
  assumes "k < length xs" and "xs ! k = d"
  shows "count_list (take k xs @ drop (Suc k) xs) d = count_list xs d - 1"
proof -
  from arg_cong [OF id_take_nth_drop [OF assms(1)], of "\<lambda>l. count_list l d"] assms(2)
  show ?thesis by simp
qed

lemma list_find_None: "list_find l t = None \<longleftrightarrow> t \<notin> set (tokens l)"
  by (simp add: list_find_def tokens_def find_node_None split: option.splits)

lemma tokens_insert:
  "t \<notin> set (tokens l) \<Longrightarrow>
   count_list (tokens (list_insert ok l t)) t = 0 \<or> count_list (tokens (list_insert ok l t)) t = 1"
  by (auto simp: list_insert_def tokens_def split: option.splits)

lemma tokens_remove:
  assumes "list_find l t = Some k"
  shows "count_list (tokens (list_remove l (Some k))) t = count_list (tokens l) t - 1"
proof (cases l)
  case None
  with assms show ?thesis by (simp add: list_find_def)
next
  case (Some x)
  with assms have "find_node (head x) t 0 = Some k" by (simp add: list_find_def)
  from find_node_Some [OF this] have "k < length (head x)" "head x ! k = t" by auto
  from count_list_remove [OF this] Some show ?thesis
    by (simp add: list_remove_def tokens_def)
qed

lemma mult_sems [simp]: "mult t (s\<lparr>sems := f\<rparr>) a dir = mult t s a dir"
  by (simp add: mult_def)

lemma same_lists_mult:
  assumes "same_lists s s'"
  shows "mult t s' a dir = mult t s a dir"
proof (cases "heap s' a")
  case None
  with assms same_lists_none [OF assms None] show ?thesis by (simp add: mult_def)
next
  case (Some c')
  from same_lists_lookup [OF assms Some] Some show ?thesis
    by (auto simp: mult_def)
qed

lemma register_entry_mult:
  assumes "register_entry ok t e s = Returns s'"
  shows "mult t s' a dir = mult t s a dir \<or>
         (channel e = Some a \<and> is_send e = dir \<and> mult t s a dir = 0 \<and> mult t s' a dir = 1)"
proof -
  from assms obtain b c where b: "channel e = Some b" "heap s b = Some c"
    by (auto simp: register_entry_def split: option.splits)
  show ?thesis
  proof (cases "is_send e")
    case True
    show ?thesis
    proof (cases "list_find (send_list c) t = None")
      case False
      with assms b True have "s' = s" by (simp add: register_entry_def)
      then show ?thesis by simp
    next
      case absent: True
      with assms b True have s': "s' = s\<lparr>heap := (heap s)(b \<mapsto>
          c\<lparr>send_list := list_insert ok (send_list c) t\<rparr>)\<rparr>"
        by (simp add: register_entry_def)
      from absent have "t \<notin> set (tokens (send_list c))" by (simp add: list_find_None)
      with tokens_insert [of t "send_list c" ok] s' b True show ?thesis
        by (auto simp: mult_def)
    qed
  next
    case False
    show ?thesis
    proof (cases "list_find (receive_list c) t = None")
      case found: False
      with assms b False have "s' = s" by (simp add: register_entry_def)
      then show ?thesis by simp
    next
      case absent: True
      with assms b False have s': "s' = s\<lparr>heap := (heap s)(b \<mapsto>
          c\<lparr>receive_list := list_insert ok (receive_list c) t\<rparr>)\<rparr>"
        by (simp add: register_entry_def)
      from absent have "t \<notin> set (tokens (receive_list c))" by (simp add: list_find_None)
      with tokens_insert [of t "receive_list c" ok] s' b False show ?thesis
        by (auto simp: mult_def)
    qed
  qed
qed

lemma deregister_entry_mult:
  assumes "deregister_entry t e s = Returns s'"
  shows "mult t s' a dir =
           (if channel e = Some a \<and> is_send e = dir then mult t s a dir - 1 else mult t s a dir)"
proof -
  from assms obtain b c where b: "channel e = Some b" "heap s b = Some c"
    by (auto simp: deregister_entry_def split: option.splits)
  show ?thesis
  proof (cases "is_send e")
    case True
    show ?thesis
    proof (cases "list_find (send_list c) t")
      case None
      with assms b True have "s' = s" by (simp add: deregister_entry_def)
      moreover from None have "count_list (tokens (send_list c)) t = 0"
        by (simp add: list_find_None)
      ultimately show ?thesis using b True by (auto simp: mult_def)
    next
      case (Some k)
      with assms b True have s': "s' = s\<lparr>heap := (heap s)(b \<mapsto>
          c\<lparr>send_list := list_remove (send_list c) (Some k)\<rparr>)\<rparr>"
        by (simp add: deregister_entry_def)
      with tokens_remove [OF Some] b True show ?thesis
        by (auto simp: mult_def)
    qed
  next
    case False
    show ?thesis
    proof (cases "list_find (receive_list c) t")
      case None
      with assms b False have "s' = s" by (simp add: deregister_entry_def)
      moreover from None have "count_list (tokens (receive_list c)) t = 0"
        by (simp add: list_find_None)
      ultimately show ?thesis using b False by (auto simp: mult_def)
    next
      case (Some k)
      with assms b False have s': "s' = s\<lparr>heap := (heap s)(b \<mapsto>
          c\<lparr>receive_list := list_remove (receive_list c) (Some k)\<rparr>)\<rparr>"
        by (simp add: deregister_entry_def)
      with tokens_remove [OF Some] b False show ?thesis
        by (auto simp: mult_def)
    qed
  qed
qed

lemma targeted_mono: "targeted i n es a dir \<Longrightarrow> n \<le> m \<Longrightarrow> targeted i m es a dir"
  by (auto simp: targeted_def)

lemma targeted_update:
  assumes "k < length es" and "channel e' = channel (es ! k)" and "is_send e' = is_send (es ! k)"
  shows "targeted i n (es[k := e']) a dir = targeted i n es a dir"
proof -
  have "\<And>j. channel (es[k := e'] ! j) = channel (es ! j) \<and> is_send (es[k := e'] ! j) = is_send (es ! j)"
    using assms by (simp add: nth_list_update)
  then show ?thesis by (simp add: targeted_def)
qed

lemma pending_update:
  "k < length es \<Longrightarrow> channel e' = channel (es ! k) \<Longrightarrow> is_send e' = is_send (es ! k) \<Longrightarrow>
   pending t i n (es[k := e']) s = pending t i n es s"
  by (simp add: pending_def targeted_update)

lemma register_entry_pending:
  assumes "pending t 0 i es s" and "register_entry ok t (es ! i) s = Returns s1"
  shows "pending t 0 (Suc i) es s1"
  unfolding pending_def
proof (intro allI)
  fix a dir
  from assms(1) have old: "mult t s a dir \<le> (if targeted 0 i es a dir then 1 else 0)"
    by (simp add: pending_def)
  from register_entry_mult [OF assms(2), of a dir]
  show "mult t s1 a dir \<le> (if targeted 0 (Suc i) es a dir then 1 else 0)"
  proof
    assume "mult t s1 a dir = mult t s a dir"
    with old targeted_mono [of 0 i es a dir "Suc i"] show ?thesis
      by (auto split: if_splits)
  next
    assume "channel (es ! i) = Some a \<and> is_send (es ! i) = dir \<and> mult t s a dir = 0 \<and>
        mult t s1 a dir = 1"
    then have "targeted 0 (Suc i) es a dir" "mult t s1 a dir = 1"
      by (auto simp: targeted_def)
    then show ?thesis by simp
  qed
qed

lemma register_loop_pending:
  "i \<le> n \<Longrightarrow> pending t 0 i es s \<Longrightarrow> register_loop mallocs t n es i s = Returns s' \<Longrightarrow>
   pending t 0 n es s'"
proof (induction mallocs t n es i s rule: register_loop.induct)
  case (1 mallocs t n es i s)
  show ?case
  proof (cases "i < n")
    case False
    with "1.prems"(3) have "s' = s"
      by (simp add: register_loop.simps [of mallocs t n es i s])
    with False "1.prems"(1,2) show ?thesis by simp
  next
    case True
    with "1.prems" obtain s1 where len: "i < length es"
      and step: "register_entry (mallocs i) t (es ! i) s = Returns s1"
      and rest: "register_loop mallocs t n es (Suc i) s1 = Returns s'"
      by (auto simp: register_loop.simps [of mallocs t n es i s] split: if_splits outcome.splits)
    from register_entry_pending [OF "1.prems"(2) step] have "pending t 0 (Suc i) es s1" .
    with "1.IH" [OF True len step _ _ rest] True show ?thesis by simp
  qed
qed

lemma deregister_entry_pending:
  assumes "pending t i n es s" and "deregister_entry t (es ! i) s = Returns s1"
  shows "pending t (Suc i) n es s1"
  unfolding pending_def
proof (intro allI)
  fix a dir
  from assms(1) have old: "mult t s a dir \<le> (if targeted i n es a dir then 1 else 0)"
    by (simp add: pending_def)
  show "mult t s1 a dir \<le> (if targeted (Suc i) n es a dir then 1 else 0)"
  proof (cases "channel (es ! i) = Some a \<and> is_send (es ! i) = dir")
    case True
    with deregister_entry_mult [OF assms(2), of a dir] old show ?thesis
      by (auto split: if_splits)
  next
    case False
    then have "targeted i n es a dir \<Longrightarrow> targeted (Suc i) n es a dir"
      unfolding targeted_def by (metis Suc_leI le_neq_implies_less)
    with False deregister_entry_mult [OF assms(2), of a dir] old show ?thesis
      by (auto split: if_splits)
  qed
qed

lemma deregister_loop_pending:
  "pending t i n es s \<Longrightarrow> deregister_loop t n es i s = Returns s' \<Longrightarrow>
   \<forall>a dir. mult t s' a dir = 0"
proof (induction t n es i s rule: deregister_loop.induct)
  case (1 t n es i s)
  show ?case
  proof (cases "i < n")
    case False
    then have "\<And>a dir. \<not> targeted i n es a dir" by (auto simp: targeted_def)
    moreover from False "1.prems"(2) have "s' = s"
      by (simp add: deregister_loop.simps [of t n es i s])
    ultimately show ?thesis using "1.prems"(1) by (simp add: pending_def)
  next
    case True
    with "1.prems" obtain s1 where len: "i < length es"
      and step: "deregister_entry t (es ! i) s = Returns s1"
      and rest: "deregister_loop t n es (Suc i) s1 = Returns s'"
      by (auto simp: deregister_loop.simps [of t n es i s] split: if_splits outcome.splits)
    from deregister_entry_pending [OF "1.prems"(1) step] have "pending t (Suc i) n es s1" .
    from "1.IH" [OF True len step this rest] show ?thesis .
  qed
qed

lemma probe_entry_pending:
  assumes "probe_entry env e s = Returns (st, e', s')" and "pending t i n es s"
  shows "pending t i n es s'"
proof -
  from probe_entry_lists [OF assms(1)] have "same_lists s s'" by simp
  from same_lists_mult [OF this, of t] assms(2) show ?thesis
    by (simp add: pending_def)
qed

lemma channel_select_token:
  assumes absent: "\<forall>a dir. mult t s a dir = 0"
    and rely: "\<forall>e\<in>set env. \<forall>s a dir. mult t (e s) a dir \<le> mult t s a dir"
    and sel: "channel_select env rc t mallocs n chl idx s = Returns (st, r, i, s')"
  shows "\<forall>a dir. mult t s' a dir = 0"
proof (cases "chl = None \<or> n = 0 \<or> rc = - 1")
  case True
  with sel have "s' = s"
    by (auto simp: channel_select_def split: option.splits if_splits)
  with absent show ?thesis by simp
next
  case False
  then obtain es where es: "chl = Some es" by auto
  with False sel obtain s1 es' where
    reg: "register_loop mallocs t n es 0 (s\<lparr>sems := (sems s)(t := 0)\<rparr>) = Returns s1"
    and loop: "select_loop env t n es s1 = Returns (st, es', i, s')"
    by (auto simp: channel_select_def split: outcome.splits)
  from absent have "pending t 0 0 es (s\<lparr>sems := (sems s)(t := 0)\<rparr>)"
    by (simp add: pending_def)
  from register_loop_pending [OF _ this reg] have p1: "pending t 0 n es s1" by simp
  have "\<exists>env' sp s2. pending t 0 n es s2 \<and>
          probe_loop env' n es 0 sp = Returns (Some (i, st), es', s2) \<and>
          deregister_loop t n es' 0 s2 = Returns s'"
  proof (rule select_loop_inv [where P = "pending t 0 n es" and s = s1 and env = env])
    fix e s assume "e \<in> set env" and p: "pending t 0 n es s"
    with rely have "\<And>a dir. mult t (e s) a dir \<le> mult t s a dir" by blast
    with p show "pending t 0 n es (e s)"
      unfolding pending_def by (meson le_trans)
  next
    fix s f assume "pending t 0 n es s"
    then show "pending t 0 n es (s\<lparr>sems := f\<rparr>)" by (simp add: pending_def)
  next
    fix env e s st e' s'
    assume "probe_entry env e s = Returns (st, e', s')" "pending t 0 n es s"
    then show "pending t 0 n es s'" by (rule probe_entry_pending)
  next
    show "pending t 0 n es s1" by (rule p1)
    show "select_loop env t n es s1 = Returns (st, es', i, s')" by (rule loop)
  qed
  then obtain env' sp s2 where p2: "pending t 0 n es s2"
    and probe: "probe_loop env' n es 0 sp = Returns (Some (i, st), es', s2)"
    and dereg: "deregister_loop t n es' 0 s2 = Returns s'"
    by blast
  from probe_loop_some [OF probe] obtain e' where
    "i < length es" "probe_entry env' (es ! i) sp = Returns (st, e', s2)" "es' = es[i := e']"
    by auto
  with probe_entry_lists [OF this(2)] p2 have "pending t 0 n es' s2"
    by (simp add: pending_update)
  from deregister_loop_pending [OF this dereg] show ?thesis .
qed

text \<open>
  Claim C7. Let the token \<open>t\<close> of a select call occur in no list when the call starts,
  and let no step of the environment add an occurrence of \<open>t\<close> to any list. Then after
  the registration loop \<open>t\<close> occurs at most once in every send list and every receive
  list, whatever pairs of channel and direction the entries repeat; and whenever
  \<open>channel_select\<close> returns, \<open>t\<close> occurs in no list of any channel.
\<close>

theorem select_token_registration:
  assumes "\<forall>a dir. mult t s a dir = 0"
    and "\<forall>e\<in>set env. \<forall>s a dir. mult t (e s) a dir \<le> mult t s a dir"
  shows "(\<forall>s1. register_loop mallocs t n es 0 (s\<lparr>sems := (sems s)(t := 0)\<rparr>) = Returns s1 \<longrightarrow>
            (\<forall>a dir. mult t s1 a dir \<le> 1)) \<and>
         (\<forall>st r i s'.
            channel_select env rc t mallocs n chl idx s = Returns (st, r, i, s') \<longrightarrow>
            (\<forall>a dir. mult t s' a dir = 0))"
proof (intro conjI allI impI)
  fix s1 a dir
  assume reg: "register_loop mallocs t n es 0 (s\<lparr>sems := (sems s)(t := 0)\<rparr>) = Returns s1"
  from assms(1) have "pending t 0 0 es (s\<lparr>sems := (sems s)(t := 0)\<rparr>)"
    by (simp add: pending_def)
  from register_loop_pending [OF _ this reg] have "pending t 0 n es s1" by simp
  then have "mult t s1 a dir \<le> (if targeted 0 n es a dir then 1 else 0)"
    by (simp add: pending_def)
  then show "mult t s1 a dir \<le> 1" by (simp split: if_splits)
next
  fix st r i s' a dir
  assume "channel_select env rc t mallocs n chl idx s = Returns (st, r, i, s')"
  from channel_select_token [OF assms this] show "mult t s' a dir = 0" by simp
qed

theorem select_token_registration_witness:
  "(\<exists>s1. register_loop (\<lambda>i. True) 9 2 [recv_entry 1, recv_entry 1] 0
            ((one_chan (chan_with 1 [] False))
               \<lparr>sems := (sems (one_chan (chan_with 1 [] False)))(9 := 0)\<rparr>)
          = Returns s1 \<and>
         mult 9 s1 1 False = 1 \<and> (\<forall>a dir. mult 9 s1 a dir \<le> 1)) \<and>
   (\<exists>r i s'. channel_select [env_send 1 7] 0 9 (\<lambda>i. True) 2
            (Some [recv_entry 1, recv_entry 1]) 5 (one_chan (chan_with 1 [] False))
          = Returns (SUCCESS, r, i, s') \<and>
         (\<forall>a dir. mult 9 s' a dir = 0))"
proof -
  let ?es = "[recv_entry 1, recv_entry 1]"
  let ?s = "one_chan (chan_with 1 [] False)"
  have fresh: "\<forall>a dir. mult 9 ?s a dir = 0"
    by (simp add: mult_def one_chan_def chan_with_def tokens_def)
  have rely: "\<forall>e\<in>set [env_send 1 7]. \<forall>s a dir. mult 9 (e s) a dir \<le> mult 9 s a dir"
  proof (intro ballI allI)
    fix e s a dir assume "e \<in> set [env_send 1 7]"
    then have e: "e = env_send 1 7" by simp
    show "mult 9 (e s) a dir \<le> mult 9 s a dir"
    proof (cases "channel_send [] (Some 1) 7 False s")
      case (Returns r)
      obtain st s' where r: "r = (st, s')" by (cases r)
      with Returns have "channel_send [] (Some 1) 7 False s = Returns (st, s')" by simp
      from same_lists_mult [OF channel_send_nonblocking_lists [OF this], of 9 a dir]
        Returns r e
      show ?thesis by (simp add: env_send_def)
    next
      case Blocks
      with e show ?thesis by (simp add: env_send_def)
    next
      case Undefined
      with e show ?thesis by (simp add: env_send_def)
    qed
  qed
  have "\<exists>s1. register_loop (\<lambda>i. True) 9 2 ?es 0 (?s\<lparr>sems := (sems ?s)(9 := 0)\<rparr>) = Returns s1 \<and>
          mult 9 s1 1 False = 1"
    by (simp add: eval_defs one_chan_def chan_with_def recv_entry_def mult_def tokens_def)
  then obtain s1 where
    reg: "register_loop (\<lambda>i. True) 9 2 ?es 0 (?s\<lparr>sems := (sems ?s)(9 := 0)\<rparr>) = Returns s1"
    and once: "mult 9 s1 1 False = 1" by blast
  have "\<exists>r i s'. channel_select [env_send 1 7] 0 9 (\<lambda>i. True) 2 (Some ?es) 5 ?s
          = Returns (SUCCESS, r, i, s')"
    by (simp add: eval_defs one_chan_def chan_with_def recv_entry_def env_send_def)
  then obtain r i s' where
    sel: "channel_select [env_send 1 7] 0 9 (\<lambda>i. True) 2 (Some ?es) 5 ?s
            = Returns (SUCCESS, r, i, s')" by blast
  note t = select_token_registration [OF fresh rely, of "\<lambda>i. True" 2 ?es 0 "Some ?es" 5]
  from t reg have "\<forall>a dir. mult 9 s1 a dir \<le> 1" by blast
  moreover from t sel have "\<forall>a dir. mult 9 s' a dir = 0" by blast
  ultimately show ?thesis using reg once sel by blast
qed

subsection \<open>Destruction\<close>

lemma channel_destroy_cases:
  "channel_destroy None s = Returns (OTHER_ERROR, s)"
  "heap s a = Some c \<Longrightarrow> \<not> closed c \<Longrightarrow>
     channel_destroy (Some a) s = Returns (DESTROY_ERROR, s)"
  "heap s a = Some c \<Longrightarrow> closed c \<Longrightarrow>
     list_destroy (send_list c) = Returns () \<Longrightarrow> list_destroy (receive_list c) = Returns () \<Longrightarrow>
     channel_destroy (Some a) s = Returns (SUCCESS, s\<lparr>heap := (heap s)(a := None)\<rparr>)"
  by (simp_all add: channel_destroy_def)


end
